theory Spec2Isabelle
  imports Main "HOL-Library.Word"
begin

unbundle bit_operations_syntax

section \<open>Bytes and byte arrays\<close>

text \<open>
  A \<open>uint8_t\<close> is an 8-bit word. A byte array reached through a pointer is a store from
  the offset relative to that pointer to the byte held there; the C code does no bounds
  checking, so the store is unbounded and the size of the allocation behind it is stated
  where a property depends on it. The \<open>int\<close> variables of the source hold frame
  dimensions and pixel offsets (at most a few million) and are modelled as integers.
\<close>

type_synonym u8 = "8 word"
type_synonym u32 = "32 word"
type_synonym mem = "int \<Rightarrow> u8"

text \<open>\<open>memset(p, 0, n)\<close>.\<close>

definition memset0 :: "mem \<Rightarrow> int \<Rightarrow> mem" where
  "memset0 m n = (\<lambda>a. if 0 \<le> a \<and> a < n then 0 else m a)"

section \<open>capture.c: the packed-YUV conversion\<close>

text \<open>\<open>r < 0 ? 0 : (r > 255 ? 255 : r)\<close>, stored into a \<open>uint8_t\<close>.\<close>

definition clamp255 :: "int \<Rightarrow> u8" where
  "clamp255 r = (if r < 0 then 0 else if r > 255 then 255 else word_of_int r)"

text \<open>
  The body of the macropixel loop, which \<open>yuyv_to_rgba_fast\<close> (capture.c) and
  \<open>yuyv_crop_to_rgba\<close> (main.c) both contain line for line: read \<open>Y0 U Y1 V\<close> at offset
  \<open>s\<close> of the source, write two RGBA pixels at offset \<open>d\<close> of the destination.
  \<open>>> 8\<close> on a negative \<open>int\<close> is the arithmetic shift, that is \<open>drop_bit 8\<close>.
\<close>

definition macropixel :: "mem \<Rightarrow> int \<Rightarrow> mem \<Rightarrow> int \<Rightarrow> mem" where
  "macropixel src s dst d =
     (let y0 = uint (src s);
          u = uint (src (s + 1));
          y1 = uint (src (s + 2));
          v = uint (src (s + 3));
          uu = u - 128;
          vv = v - 128;
          ruv = drop_bit 8 (359 * vv);
          guv = drop_bit 8 (88 * uu + 183 * vv);
          buv = drop_bit 8 (454 * uu);
          r0 = y0 + ruv;
          g0 = y0 - guv;
          b0 = y0 + buv;
          r1 = y1 + ruv;
          g1 = y1 - guv;
          b1 = y1 + buv
      in dst(d := clamp255 r0, d + 1 := clamp255 g0, d + 2 := clamp255 b0, d + 3 := 255,
             d + 4 := clamp255 r1, d + 5 := clamp255 g1, d + 6 := clamp255 b1, d + 7 := 255))"

text \<open>
  \<open>for (i = 0; i < total; i++) { ...; src += 4; ...; dst += 8; }\<close>: \<open>s\<close> and \<open>d\<close> are
  the offsets the two moving pointers have reached, \<open>n\<close> is the source's \<open>total\<close>.
\<close>

function yuyv_loop :: "mem \<Rightarrow> mem \<Rightarrow> int \<Rightarrow> int \<Rightarrow> int \<Rightarrow> int \<Rightarrow> mem" where
  "yuyv_loop src dst s d i n =
     (if i < n then yuyv_loop src (macropixel src s dst d) (s + 4) (d + 8) (i + 1) n
      else dst)"
  by pat_completeness auto
termination
  by (relation "measure (\<lambda>(src, dst, s, d, i, n). nat (n - i))") auto

declare yuyv_loop.simps [simp del]

text \<open>
  C's \<open>/\<close> truncates towards zero.
\<close>

definition c_div :: "int \<Rightarrow> int \<Rightarrow> int" where
  "c_div a b = sgn a * sgn b * (\<bar>a\<bar> div \<bar>b\<bar>)"

definition yuyv_to_rgba_fast :: "mem \<Rightarrow> mem \<Rightarrow> int \<Rightarrow> int \<Rightarrow> mem" where
  "yuyv_to_rgba_fast src dst width height =
     (let n = c_div (width * height) 2 in yuyv_loop src dst 0 0 0 n)"

text \<open>
  Byte \<open>j\<close> (\<open>0 \<le> j < 8\<close>) of the two pixels the loop body writes for the macropixel
  at offset \<open>s\<close>: \<open>R0 G0 B0 A0 R1 G1 B1 A1\<close>.
\<close>

definition mp_byte :: "mem \<Rightarrow> int \<Rightarrow> int \<Rightarrow> u8" where
  "mp_byte src s j = macropixel src s (\<lambda>_. 0) 0 j"

section \<open>capture.c: the compressed conversion\<close>

text \<open>
  libjpeg is an external library. What it does with one compressed frame is a parameter
  of the model: the dimensions and scanlines it decodes (\<open>scanline y k\<close> is byte \<open>k\<close> of
  the RGB row \<open>y\<close>), and the call, if any, in which it reports a fatal error through
  \<open>error_exit\<close>, which here is \<open>jpeg_error_exit\<close>: a \<open>longjmp\<close> back to the
  \<open>setjmp\<close> of \<open>mjpeg_to_rgba\<close>.

  \<open>premature_eof\<close> says that the frame data is truncated: the memory source set up by
  \<open>jpeg_mem_src\<close> is asked for bytes beyond the \<open>size\<close> it was given. libjpeg answers
  that with a warning (\<open>emit_message\<close>, which returns to the decoder) and a made-up
  end-of-image marker; \<open>mjpeg_to_rgba\<close> installs no handler for warnings. Whether a
  fatal error follows depends on where the data ends: inside the header there is no
  image to decode and \<open>error_exit\<close> is called; inside the compressed scan the decoder
  goes on and pads the part it has no data for.
\<close>

datatype jpeg_failure =
    NoFailure
  | FailHeader
  | FailScanline nat
  | FailFinish

record jpeg_t =
  output_width :: nat
  output_height :: nat
  scanline :: "nat \<Rightarrow> int \<Rightarrow> u8"
  failure :: jpeg_failure
  premature_eof :: bool

text \<open>
  \<open>for (x = 0; x < width && x < (int)cinfo.output_width; x++)\<close> over one decoded row;
  \<open>dst\<close> is \<open>rgba + y * width * 4\<close>, written here as the offset \<open>d\<close> into \<open>rgba\<close>.
\<close>

function mjpeg_row :: "(int \<Rightarrow> u8) \<Rightarrow> mem \<Rightarrow> int \<Rightarrow> int \<Rightarrow> int \<Rightarrow> int \<Rightarrow> mem" where
  "mjpeg_row row_buffer rgba d x width ow =
     (if x < width \<and> x < ow
      then mjpeg_row row_buffer
             (rgba(d + x * 4 + 0 := row_buffer (x * 3 + 0),
                   d + x * 4 + 1 := row_buffer (x * 3 + 1),
                   d + x * 4 + 2 := row_buffer (x * 3 + 2),
                   d + x * 4 + 3 := 255))
             d (x + 1) width ow
      else rgba)"
  by pat_completeness auto
termination
  by (relation "measure (\<lambda>(row_buffer, rgba, d, x, width, ow). nat (width - x))") auto

declare mjpeg_row.simps [simp del]

text \<open>
  \<open>while (cinfo.output_scanline < cinfo.output_height && y < height)\<close>; each
  \<open>jpeg_read_scanlines\<close> advances \<open>output_scanline\<close> by one, so it equals \<open>y\<close>. The
  result is \<open>Inl\<close> the buffer as it stands when \<open>error_exit\<close> fires in
  \<open>jpeg_read_scanlines\<close>, \<open>Inr\<close> the buffer when the loop ends.
\<close>

function mjpeg_rows :: "jpeg_t \<Rightarrow> mem \<Rightarrow> int \<Rightarrow> int \<Rightarrow> int \<Rightarrow> mem + mem" where
  "mjpeg_rows jpg rgba y width height =
     (if y < int (output_height jpg) \<and> y < height
      then (if failure jpg = FailScanline (nat y) then Inl rgba
            else mjpeg_rows jpg
                   (mjpeg_row (scanline jpg (nat y)) rgba (y * width * 4) 0 width
                      (int (output_width jpg)))
                   (y + 1) width height)
      else Inr rgba)"
  by pat_completeness auto
termination
  by (relation "measure (\<lambda>(jpg, rgba, y, width, height). nat (height - y))") auto

declare mjpeg_rows.simps [simp del]

text \<open>
  \<open>mjpeg_to_rgba\<close>. The branch taken when \<open>setjmp\<close> returns non-zero fills the buffer
  with \<open>memset(rgba, 0, width * height * 4)\<close>, whatever had been written before the
  error. \<open>FailHeader\<close> stands for an error in \<open>jpeg_mem_src\<close>, \<open>jpeg_read_header\<close> or
  \<open>jpeg_start_decompress\<close> (before the first row), \<open>FailFinish\<close> for one in
  \<open>jpeg_finish_decompress\<close> (after the last).
\<close>

definition mjpeg_to_rgba :: "jpeg_t \<Rightarrow> mem \<Rightarrow> int \<Rightarrow> int \<Rightarrow> mem" where
  "mjpeg_to_rgba jpg rgba width height =
     (if failure jpg = FailHeader then memset0 rgba (width * height * 4)
      else (case mjpeg_rows jpg rgba 0 width height of
              Inl partial \<Rightarrow> memset0 partial (width * height * 4)
            | Inr full \<Rightarrow>
                if failure jpg = FailFinish then memset0 full (width * height * 4)
                else full))"

section \<open>capture.c: the buffer manager\<close>

text \<open>
  \<open>buffer_t\<close>: the address \<open>mmap\<close> returned and the length of the mapping.
\<close>

record buffer_t =
  start :: nat
  len :: nat

text \<open>
  The owner of a buffer slot. \<open>VIDIOC_QBUF\<close> hands a slot to the driver (\<open>Queued\<close>),
  \<open>VIDIOC_DQBUF\<close> hands a filled one to the program (\<open>Acquired\<close>).
\<close>

datatype slot_state = Queued | Acquired

text \<open>
  \<open>capture_ctx_t\<close> of capture.h, the fields prefixed with \<open>ctx_\<close>. The last field,
  \<open>slots\<close>, is not a field of the C structure: it is the kernel's side of the stream
  behind \<open>fd\<close>, the owner of each buffer, which the C code never records. The only
  trace the context keeps of an acquired buffer is \<open>current_index\<close>.
\<close>

record capture_ctx_t =
  ctx_fd :: int
  ctx_width :: int
  ctx_height :: int
  ctx_format :: u32
  ctx_buffers :: "buffer_t list"
  ctx_buffer_count :: int
  ctx_current_index :: int
  ctx_rgb_buffer :: mem
  slots :: "slot_state list"

text \<open>Constants of \<open>linux/videodev2.h\<close>: the fourcc codes and the capability bit.\<close>

definition V4L2_PIX_FMT_MJPEG :: u32 where
  "V4L2_PIX_FMT_MJPEG = 0x47504A4D"

definition V4L2_PIX_FMT_YUYV :: u32 where
  "V4L2_PIX_FMT_YUYV = 0x56595559"

definition V4L2_CAP_VIDEO_CAPTURE :: u32 where
  "V4L2_CAP_VIDEO_CAPTURE = 0x00000001"

text \<open>
  The device, as the answers of the system calls \<open>capture_open_buffers\<close> makes:
  \<open>None\<close> (or \<open>False\<close>) is a call that fails. \<open>s_fmt\<close> maps the requested
  (pixelformat, width, height) to what the driver sets; \<open>reqbufs\<close> maps the requested
  count to the count the driver grants; \<open>querybuf\<close> gives the length and offset of
  buffer \<open>i\<close>; \<open>mmap_at\<close> the address of the mapping of a given length and offset
  (\<open>None\<close> is \<open>MAP_FAILED\<close>).
\<close>

record v4l2_device =
  open_fd :: "int option"
  querycap :: "u32 option"
  s_fmt :: "u32 \<times> int \<times> int \<Rightarrow> (u32 \<times> int \<times> int) option"
  reqbufs :: "u32 \<Rightarrow> u32 option"
  querybuf :: "nat \<Rightarrow> (nat \<times> nat) option"
  mmap_at :: "nat \<Rightarrow> nat \<Rightarrow> nat option"
  qbuf :: "nat \<Rightarrow> bool"
  streamon :: bool

text \<open>
  The early returns of \<open>capture_open_buffers\<close>. The C function returns \<open>NULL\<close> at
  each; the constructors keep apart the places, named after the message printed there.
\<close>

datatype open_error =
    CannotOpenDevice
  | QuerycapFailed
  | NoVideoCapture
  | SetFormatFailed
  | ReqbufsFailed
  | QuerybufFailed
  | MmapFailed
  | QbufFailed
  | StreamonFailed

text \<open>
  Format negotiation: MJPEG first; when the call fails or the driver answers another
  pixelformat, YUYV is requested with the (possibly adjusted) dimensions, and whatever
  the driver then answers is taken.
\<close>

definition negotiate_format :: "v4l2_device \<Rightarrow> int \<Rightarrow> int \<Rightarrow> (u32 \<times> int \<times> int) option" where
  "negotiate_format dev width height =
     (let fmt = (V4L2_PIX_FMT_MJPEG, width, height) in
      case s_fmt dev fmt of
        None \<Rightarrow> s_fmt dev (V4L2_PIX_FMT_YUYV, snd fmt)
      | Some fmt' \<Rightarrow>
          if fst fmt' \<noteq> V4L2_PIX_FMT_MJPEG then s_fmt dev (V4L2_PIX_FMT_YUYV, snd fmt')
          else Some fmt')"

text \<open>
  The first loop over \<open>i < req.count\<close>: \<open>VIDIOC_QUERYBUF\<close> and \<open>mmap\<close> of each
  buffer, the mapped buffers collected in \<open>acc\<close>.
\<close>

function map_buffers :: "v4l2_device \<Rightarrow> nat \<Rightarrow> nat \<Rightarrow> buffer_t list \<Rightarrow> open_error + buffer_t list" where
  "map_buffers dev i n acc =
     (if i < n
      then (case querybuf dev i of
              None \<Rightarrow> Inl QuerybufFailed
            | Some (length_i, offset_i) \<Rightarrow>
                (case mmap_at dev length_i offset_i of
                   None \<Rightarrow> Inl MmapFailed
                 | Some addr \<Rightarrow>
                     map_buffers dev (i + 1) n (acc @ [\<lparr>start = addr, len = length_i\<rparr>])))
      else Inr acc)"
  by pat_completeness auto
termination
  by (relation "measure (\<lambda>(dev, i, n, acc). n - i)") auto

declare map_buffers.simps [simp del]

text \<open>The second loop: \<open>VIDIOC_QBUF\<close> of each buffer.\<close>

function queue_buffers :: "v4l2_device \<Rightarrow> nat \<Rightarrow> nat \<Rightarrow> bool" where
  "queue_buffers dev i n =
     (if i < n then (if qbuf dev i then queue_buffers dev (i + 1) n else False) else True)"
  by pat_completeness auto
termination
  by (relation "measure (\<lambda>(dev, i, n). n - i)") auto

declare queue_buffers.simps [simp del]

text \<open>
  \<open>capture_open_buffers\<close>. \<open>req.count\<close> is a \<open>__u32\<close>: the \<open>int\<close> argument is
  converted on assignment, and the granted count is converted back into the \<open>int\<close>
  field \<open>buffer_count\<close>. The cleanup of the error paths (\<open>munmap\<close>, \<open>free\<close>,
  \<open>close\<close>) releases what was taken and is not part of the value returned.
  \<open>malloc\<close> gives the scratch buffer unspecified contents: \<open>rgb0\<close>.
\<close>

definition capture_open_buffers ::
  "v4l2_device \<Rightarrow> mem \<Rightarrow> int \<Rightarrow> int \<Rightarrow> int \<Rightarrow> open_error + capture_ctx_t" where
  "capture_open_buffers dev rgb0 width height num_buffers =
     (case open_fd dev of
        None \<Rightarrow> Inl CannotOpenDevice
      | Some fd \<Rightarrow>
     (case querycap dev of
        None \<Rightarrow> Inl QuerycapFailed
      | Some capabilities \<Rightarrow>
     if capabilities AND V4L2_CAP_VIDEO_CAPTURE = 0 then Inl NoVideoCapture
     else
     (case negotiate_format dev width height of
        None \<Rightarrow> Inl SetFormatFailed
      | Some (pixelformat, w, h) \<Rightarrow>
     (case reqbufs dev (word_of_int num_buffers) of
        None \<Rightarrow> Inl ReqbufsFailed
      | Some req_count \<Rightarrow>
     (case map_buffers dev 0 (unat req_count) [] of
        Inl e \<Rightarrow> Inl e
      | Inr buffers \<Rightarrow>
     if \<not> queue_buffers dev 0 (unat req_count) then Inl QbufFailed
     else if \<not> streamon dev then Inl StreamonFailed
     else Inr \<lparr>ctx_fd = fd, ctx_width = w, ctx_height = h, ctx_format = pixelformat,
               ctx_buffers = buffers, ctx_buffer_count = sint req_count,
               ctx_current_index = 0, ctx_rgb_buffer = rgb0,
               slots = replicate (unat req_count) Queued\<rparr>)))))"

text \<open>\<open>#define BUFFER_COUNT 2\<close> and \<open>capture_open\<close>.\<close>

definition BUFFER_COUNT :: int where
  "BUFFER_COUNT = 2"

definition capture_open :: "v4l2_device \<Rightarrow> mem \<Rightarrow> int \<Rightarrow> int \<Rightarrow> open_error + capture_ctx_t" where
  "capture_open dev rgb0 width height = capture_open_buffers dev rgb0 width height BUFFER_COUNT"

text \<open>
  The answer of \<open>VIDIOC_DQBUF\<close>: \<open>None\<close> when the call fails (\<open>EAGAIN\<close>: no frame is
  ready, or any other error), otherwise the index of the buffer handed over and the
  number of bytes used in it.
\<close>

record v4l2_buffer =
  index :: nat
  bytesused :: nat

text \<open>
  \<open>capture_get_frame_raw\<close>: the context may be \<open>NULL\<close> (\<open>None\<close>). The result is the
  pointer \<open>buffers[buf.index].start\<close> with \<open>*out_size\<close>, or \<open>None\<close> for \<open>NULL\<close>.
  There is no check of \<open>current_index\<close> or of an earlier acquisition before the
  \<open>ioctl\<close>. A driver answers with the index of one of the mapped buffers; an index
  outside them is an out-of-bounds read in C and \<open>None\<close> here.
\<close>

definition capture_get_frame_raw ::
  "capture_ctx_t option \<Rightarrow> v4l2_buffer option \<Rightarrow> (nat \<times> nat) option \<times> capture_ctx_t option" where
  "capture_get_frame_raw ctx dq =
     (case ctx of
        None \<Rightarrow> (None, None)
      | Some c \<Rightarrow>
          (case dq of
             None \<Rightarrow> (None, Some c)
           | Some buf \<Rightarrow>
               let c' = c\<lparr>ctx_current_index := int (index buf),
                          slots := (slots c)[index buf := Acquired]\<rparr>
               in if index buf < length (ctx_buffers c)
                  then (Some (start (ctx_buffers c ! index buf), bytesused buf), Some c')
                  else (None, Some c')))"

text \<open>
  \<open>capture_return_buffer\<close>: \<open>VIDIOC_QBUF\<close> of \<open>current_index\<close>, the result of the
  call ignored (queueing a buffer the driver already owns fails and changes nothing).
\<close>

definition capture_return_buffer :: "capture_ctx_t option \<Rightarrow> capture_ctx_t option" where
  "capture_return_buffer ctx =
     (case ctx of
        None \<Rightarrow> None
      | Some c \<Rightarrow>
          if 0 \<le> ctx_current_index c
          then Some (c\<lparr>slots := (slots c)[nat (ctx_current_index c) := Queued]\<rparr>)
          else Some c)"

text \<open>
  \<open>capture_get_frame\<close>: \<open>raw\<close> is the content of the buffer the driver hands over,
  \<open>jpg\<close> what libjpeg makes of it. The result is \<open>ctx->rgb_buffer\<close> after the
  conversion, or \<open>None\<close> for \<open>NULL\<close>. (\<open>capture_get_frame_raw\<close> of a context that is
  not \<open>NULL\<close> gives one back, so the second case below is never taken.)
\<close>

definition capture_get_frame ::
  "capture_ctx_t option \<Rightarrow> v4l2_buffer option \<Rightarrow> mem \<Rightarrow> jpeg_t \<Rightarrow> mem option \<times> capture_ctx_t option" where
  "capture_get_frame ctx dq raw jpg =
     (case ctx of
        None \<Rightarrow> (None, None)
      | Some _ \<Rightarrow>
          (case capture_get_frame_raw ctx dq of
             (None, ctx') \<Rightarrow> (None, ctx')
           | (Some (p, n), None) \<Rightarrow> (None, None)
           | (Some (p, n), Some c) \<Rightarrow>
               let c' =
                 (if ctx_format c = V4L2_PIX_FMT_YUYV
                  then c\<lparr>ctx_rgb_buffer :=
                           yuyv_to_rgba_fast raw (ctx_rgb_buffer c) (ctx_width c) (ctx_height c)\<rparr>
                  else if ctx_format c = V4L2_PIX_FMT_MJPEG
                  then c\<lparr>ctx_rgb_buffer :=
                           mjpeg_to_rgba jpg (ctx_rgb_buffer c) (ctx_width c) (ctx_height c)\<rparr>
                  else c)
               in (Some (ctx_rgb_buffer c'), capture_return_buffer (Some c'))))"



text \<open>
  A small open context with the compressed format, two mapped buffers and a scratch
  buffer of \<open>2 * 1 * 4\<close> bytes holding 255 everywhere, and what libjpeg makes of a
  frame cut off inside its header.
\<close>

definition mjpeg_ctx :: capture_ctx_t where
  "mjpeg_ctx =
     \<lparr>ctx_fd = 3, ctx_width = 2, ctx_height = 1, ctx_format = V4L2_PIX_FMT_MJPEG,
      ctx_buffers = [\<lparr>start = 4096, len = 4096\<rparr>, \<lparr>start = 8192, len = 4096\<rparr>],
      ctx_buffer_count = 2, ctx_current_index = 0, ctx_rgb_buffer = (\<lambda>_. 255),
      slots = [Queued, Queued]\<rparr>"

definition truncated_jpeg :: jpeg_t where
  "truncated_jpeg =
     \<lparr>output_width = 0, output_height = 0, scanline = (\<lambda>_ _. 0), failure = FailHeader,
      premature_eof = True\<rparr>"


text \<open>The bytes of a buffer at the given offsets.\<close>

definition read_bytes :: "int list \<Rightarrow> mem \<Rightarrow> u8 list" where
  "read_bytes offsets m = map m offsets"

text \<open>
  The number of slots the program holds, and the answers \<open>VIDIOC_DQBUF\<close> can give in a
  context: the driver hands over one of the mapped buffers, and only one it owns.
\<close>

definition acquired_count :: "capture_ctx_t \<Rightarrow> nat" where
  "acquired_count c = length (filter (\<lambda>s. s = Acquired) (slots c))"

definition driver_may_hand_over :: "capture_ctx_t \<Rightarrow> v4l2_buffer \<Rightarrow> bool" where
  "driver_may_hand_over c buf =
     (index buf < length (ctx_buffers c) \<and> index buf < length (slots c) \<and>
      slots c ! index buf = Queued)"

text \<open>
  An open context with two buffers, both queued, and a device that grants every request
  as made (\<open>VIDIOC_REQBUFS\<close> allows up to 32 buffers).
\<close>

definition two_buffer_ctx :: capture_ctx_t where
  "two_buffer_ctx =
     \<lparr>ctx_fd = 3, ctx_width = 1920, ctx_height = 1080, ctx_format = V4L2_PIX_FMT_YUYV,
      ctx_buffers = [\<lparr>start = 4096, len = 4147200\<rparr>, \<lparr>start = 4151296, len = 4147200\<rparr>],
      ctx_buffer_count = 2, ctx_current_index = 0, ctx_rgb_buffer = (\<lambda>_. 0),
      slots = [Queued, Queued]\<rparr>"

definition plain_device :: v4l2_device where
  "plain_device =
     \<lparr>open_fd = Some 3, querycap = Some 1, s_fmt = (\<lambda>f. Some f), reqbufs = (\<lambda>n. Some n),
      querybuf = (\<lambda>i. Some (4147200, i * 4147200)),
      mmap_at = (\<lambda>l off. Some (4096 + off)), qbuf = (\<lambda>_. True), streamon = True\<rparr>"

section \<open>main.c: sampling and border detection\<close>

datatype detected_preset_t = PRESET_NONE | PRESET_NES_SWITCH | PRESET_SNES_SWITCH

text \<open>\<open>sample_yuyv_luma\<close>: \<open>yuyv[(y * width + x) * 2]\<close> as an \<open>int\<close>.\<close>

definition sample_yuyv_luma :: "mem \<Rightarrow> int \<Rightarrow> int \<Rightarrow> int \<Rightarrow> int" where
  "sample_yuyv_luma yuyv width x y = uint (yuyv ((y * width + x) * 2))"

text \<open>
  \<open>sample_yuyv_rgb\<close>: the RGB value of the single pixel in column \<open>x\<close> and row \<open>y\<close>
  of a packed frame, the three out parameters as a triple. The two \<open>if\<close> statements
  per channel are the two steps of each clamp.
\<close>

definition sample_yuyv_rgb :: "mem \<Rightarrow> int \<Rightarrow> int \<Rightarrow> int \<Rightarrow> int \<times> int \<times> int" where
  "sample_yuyv_rgb yuyv width x y =
     (let idx = (y * width + (x AND NOT 1)) * 2;
          y_val = uint (yuyv ((y * width + x) * 2));
          u = uint (yuyv (idx + 1)) - 128;
          v = uint (yuyv (idx + 3)) - 128;
          r = y_val + drop_bit 8 (359 * v);
          g = y_val - drop_bit 8 (88 * u + 183 * v);
          b = y_val + drop_bit 8 (454 * u);
          r1 = (if r < 0 then 0 else r);
          r2 = (if r1 > 255 then 255 else r1);
          g1 = (if g < 0 then 0 else g);
          g2 = (if g1 > 255 then 255 else g1);
          b1 = (if b < 0 then 0 else b);
          b2 = (if b1 > 255 then 255 else b1)
      in (r2, g2, b2))"

text \<open>
  \<open>border_changed\<close>. The static array \<open>last_border_luma[4]\<close> is a 4-tuple passed in
  and returned updated; the loop over its four entries is written out.
\<close>

type_synonym luma4 = "int \<times> int \<times> int \<times> int"

definition border_changed :: "mem \<Rightarrow> int \<Rightarrow> detected_preset_t \<Rightarrow> luma4 \<Rightarrow> bool \<times> luma4" where
  "border_changed yuyv width current last_luma =
     (case last_luma of (l0, l1, l2, l3) \<Rightarrow>
      let s0 = sample_yuyv_luma yuyv width 400 200;
          s1 = sample_yuyv_luma yuyv width 400 400;
          s2 = sample_yuyv_luma yuyv width 400 600;
          s3 = sample_yuyv_luma yuyv width 400 800;
          diff = \<bar>s0 - l0\<bar> + \<bar>s1 - l1\<bar> + \<bar>s2 - l2\<bar> + \<bar>s3 - l3\<bar>
      in (if current = PRESET_NONE then True else diff > 60, (s0, s1, s2, s3)))"

text \<open>
  The test of the four edge scans of \<open>scan_for_game_area\<close>:
  \<open>luma > content_threshold && luma > border_luma + 15\<close>, \<open>content_threshold = 40\<close>.
\<close>

definition is_content :: "int \<Rightarrow> int \<Rightarrow> bool" where
  "is_content border_luma luma = (luma > 40 \<and> luma > border_luma + 15)"

text \<open>
  The two shapes of scan loop: \<open>for (x = x0; x < limit; x += 2) if (test x) { ...; break; }\<close>
  and \<open>for (x = x0; x > limit; x -= 2) if (test x) { ...; break; }\<close>. The result
  is the position at which the loop breaks, \<open>None\<close> when it runs to its end.
\<close>

function scan_up :: "(int \<Rightarrow> bool) \<Rightarrow> int \<Rightarrow> int \<Rightarrow> int option" where
  "scan_up test x limit =
     (if x < limit then (if test x then Some x else scan_up test (x + 2) limit) else None)"
  by pat_completeness auto
termination
  by (relation "measure (\<lambda>(test, x, limit). nat (limit - x))") auto

declare scan_up.simps [simp del]

function scan_down :: "(int \<Rightarrow> bool) \<Rightarrow> int \<Rightarrow> int \<Rightarrow> int option" where
  "scan_down test x limit =
     (if x > limit then (if test x then Some x else scan_down test (x - 2) limit) else None)"
  by pat_completeness auto
termination
  by (relation "measure (\<lambda>(test, x, limit). nat (x - limit))") auto

declare scan_down.simps [simp del]

text \<open>
  The four edge scans of \<open>scan_for_game_area\<close>, each \<open>None\<close> when its loop finds no
  transition. The top and bottom scans depend on the edges found before them, as in the
  source: \<open>center_x\<close> and \<open>scan_x_bottom\<close>.
\<close>

record edges_t =
  left_scan :: "int option"
  right_scan :: "int option"
  top_scan :: "int option"
  bottom_scan :: "int option"

definition left_edge_of :: "edges_t \<Rightarrow> int" where
  "left_edge_of e = (case left_scan e of Some x \<Rightarrow> x | None \<Rightarrow> 0)"

definition right_edge_of :: "edges_t \<Rightarrow> int \<Rightarrow> int" where
  "right_edge_of e width = (case right_scan e of Some x \<Rightarrow> x + 1 | None \<Rightarrow> width)"

definition top_edge_of :: "edges_t \<Rightarrow> int" where
  "top_edge_of e = (case top_scan e of Some y \<Rightarrow> y | None \<Rightarrow> 0)"

definition bottom_edge_of :: "edges_t \<Rightarrow> int \<Rightarrow> int" where
  "bottom_edge_of e height = (case bottom_scan e of Some y \<Rightarrow> y + 1 | None \<Rightarrow> height)"

definition scan_edges :: "mem \<Rightarrow> int \<Rightarrow> int \<Rightarrow> edges_t" where
  "scan_edges yuyv width height =
     (let border_luma = sample_yuyv_luma yuyv width 200 (c_div height 2);
          l = scan_up (\<lambda>x. is_content border_luma (sample_yuyv_luma yuyv width x (c_div height 2)))
                150 (c_div width 2);
          left_edge = (case l of Some x \<Rightarrow> x | None \<Rightarrow> 0);
          r = scan_down (\<lambda>x. is_content border_luma (sample_yuyv_luma yuyv width x (c_div height 2)))
                (width - 150) (c_div width 2);
          right_edge = (case r of Some x \<Rightarrow> x + 1 | None \<Rightarrow> width);
          center_x0 = c_div (left_edge + right_edge) 2;
          center_x = (if center_x0 < 200 then c_div width 2 else center_x0);
          t = scan_up (\<lambda>y. is_content border_luma (sample_yuyv_luma yuyv width center_x y))
                120 (c_div height 2);
          scan_x_bottom = (if left_edge > 0 then left_edge + 50 else c_div width 3);
          b = scan_down (\<lambda>y. is_content border_luma (sample_yuyv_luma yuyv width scan_x_bottom y))
                (height - 100) (c_div height 2)
      in \<lparr>left_scan = l, right_scan = r, top_scan = t, bottom_scan = b\<rparr>)"

text \<open>
  \<open>scan_for_game_area\<close>: \<open>None\<close> is \<open>return false\<close>, \<open>Some (x, y, w, h)\<close> is
  \<open>return true\<close> with the four out parameters. \<open>& ~3\<close> is \<open>AND NOT 3\<close>.
\<close>

definition scan_for_game_area :: "mem \<Rightarrow> int \<Rightarrow> int \<Rightarrow> (int \<times> int \<times> int \<times> int) option" where
  "scan_for_game_area yuyv width height =
     (let e = scan_edges yuyv width height;
          left_edge = left_edge_of e;
          right_edge = right_edge_of e width;
          top_edge = top_edge_of e;
          bottom_edge = bottom_edge_of e height;
          detected_w = right_edge - left_edge;
          detected_h = bottom_edge - top_edge
      in if left_edge < 50 \<or> detected_w < 200 \<or> detected_h < 200 then None
         else let left_edge' = left_edge AND NOT 3;
                  top_edge' = top_edge AND NOT 3;
                  detected_w' = ((right_edge - left_edge') + 3) AND NOT 3;
                  detected_h' = ((bottom_edge - top_edge') + 3) AND NOT 3
              in Some (left_edge', top_edge', detected_w', detected_h'))"

text \<open>\<open>detect_preset\<close>; \<open>height\<close> is unused, as in the source.\<close>

definition detect_preset :: "mem \<Rightarrow> int \<Rightarrow> int \<Rightarrow> detected_preset_t" where
  "detect_preset yuyv width height =
     (let border_y1 = sample_yuyv_luma yuyv width 400 300;
          border_y2 = sample_yuyv_luma yuyv width 400 500;
          border_y3 = sample_yuyv_luma yuyv width 400 700
      in if border_y1 > 30 \<or> border_y2 > 30 \<or> border_y3 > 30 then PRESET_NONE
         else let y85_luma = sample_yuyv_luma yuyv width 700 85;
                  y95_luma = sample_yuyv_luma yuyv width 700 95
              in if y85_luma > 20 then PRESET_NES_SWITCH
                 else if y95_luma > 20 then PRESET_SNES_SWITCH
                 else let center_luma = sample_yuyv_luma yuyv width 960 540
                      in if center_luma > 10
                         then (let nes_start = sample_yuyv_luma yuyv width 700 83
                               in if nes_start > 15 then PRESET_NES_SWITCH
                                  else PRESET_SNES_SWITCH)
                         else PRESET_NONE)"

text \<open>\<open>apply_detected_preset\<close>: the four out parameters \<open>(cx, cy, cw, ch)\<close>.\<close>

fun apply_detected_preset :: "detected_preset_t \<Rightarrow> int \<times> int \<times> int \<times> int" where
  "apply_detected_preset PRESET_NES_SWITCH = (448, 83, 1024, 912)"
| "apply_detected_preset PRESET_SNES_SWITCH = (448, 92, 1024, 896)"
| "apply_detected_preset PRESET_NONE = (0, 0, 1920, 1080)"

text \<open>
  The four probe samples that \<open>border_changed\<close> takes from a frame, and the sum of
  absolute differences it computes between them and the stored ones.
\<close>

definition probe_samples :: "mem \<Rightarrow> int \<Rightarrow> luma4" where
  "probe_samples yuyv width =
     (sample_yuyv_luma yuyv width 400 200, sample_yuyv_luma yuyv width 400 400,
      sample_yuyv_luma yuyv width 400 600, sample_yuyv_luma yuyv width 400 800)"

definition probe_diff :: "luma4 \<Rightarrow> luma4 \<Rightarrow> int" where
  "probe_diff s l =
     (case s of (s0, s1, s2, s3) \<Rightarrow> case l of (l0, l1, l2, l3) \<Rightarrow>
        \<bar>s0 - l0\<bar> + \<bar>s1 - l1\<bar> + \<bar>s2 - l2\<bar> + \<bar>s3 - l3\<bar>)"

text \<open>
  Three \<open>1920 \<times> 1080\<close> frames: an entirely dark one; a dark one with a single bright
  sample in the middle row at column 150, where the left-edge scan starts; and a dark
  one with a single bright sample at column 700 of row 95, the signature by which
  \<open>detect_preset\<close> tells \<open>PRESET_SNES_SWITCH\<close>.
\<close>

definition dark_frame :: mem where
  "dark_frame = (\<lambda>_. 0)"

text \<open>A packed frame of uniform mid-gray: every luma and chroma byte is 128.\<close>

definition gray_frame :: mem where
  "gray_frame = (\<lambda>_. 128)"

definition left_only_frame :: mem where
  "left_only_frame = (\<lambda>a. if a = (540 * 1920 + 150) * 2 then 200 else 0)"

definition snes_frame :: mem where
  "snes_frame = (\<lambda>a. if a = (95 * 1920 + 700) * 2 then 100 else 0)"

section \<open>main.c: the cropped conversion\<close>

text \<open>
  The inner loop of \<open>yuyv_crop_to_rgba\<close>:
  \<open>for (x = 0; x < crop_w; x += 2) { ...; row += 4; ...; out += 8; }\<close>, with \<open>row\<close> and
  \<open>out\<close> the offsets the two pointers have reached in \<open>src\<close> and \<open>dst\<close>.
\<close>

function crop_row :: "mem \<Rightarrow> mem \<Rightarrow> int \<Rightarrow> int \<Rightarrow> int \<Rightarrow> int \<Rightarrow> mem" where
  "crop_row src dst row out x cw =
     (if x < cw then crop_row src (macropixel src row dst out) (row + 4) (out + 8) (x + 2) cw
      else dst)"
  by pat_completeness auto
termination
  by (relation "measure (\<lambda>(src, dst, row, out, x, cw). nat (cw - x))") auto

declare crop_row.simps [simp del]

text \<open>
  The outer loop: \<open>for (y = 0; y < crop_h; y++)\<close> with
  \<open>row = src + ((crop_y + y) * src_w + crop_x) * 2\<close> and \<open>out = dst + y * crop_w * 4\<close>.
  The parameters \<open>cx, cy, cw, ch\<close> are the source's \<open>crop_x, crop_y, crop_w, crop_h\<close>.
\<close>

function crop_rows :: "mem \<Rightarrow> int \<Rightarrow> mem \<Rightarrow> int \<Rightarrow> int \<Rightarrow> int \<Rightarrow> int \<Rightarrow> int \<Rightarrow> mem" where
  "crop_rows src src_w dst cx cy cw ch y =
     (if y < ch
      then crop_rows src src_w
             (crop_row src dst (((cy + y) * src_w + cx) * 2) (y * cw * 4) 0 cw)
             cx cy cw ch (y + 1)
      else dst)"
  by pat_completeness auto
termination
  by (relation "measure (\<lambda>(src, src_w, dst, cx, cy, cw, ch, y). nat (ch - y))") auto

declare crop_rows.simps [simp del]

text \<open>\<open>yuyv_crop_to_rgba\<close>: \<open>crop_x &= ~1\<close>, then the two loops; \<open>src_h\<close> is unused.\<close>

definition yuyv_crop_to_rgba ::
  "mem \<Rightarrow> int \<Rightarrow> int \<Rightarrow> mem \<Rightarrow> int \<Rightarrow> int \<Rightarrow> int \<Rightarrow> int \<Rightarrow> mem" where
  "yuyv_crop_to_rgba src src_w src_h dst cx cy cw ch =
     crop_rows src src_w dst (cx AND NOT 1) cy cw ch 0"

section \<open>main.c: the state of the main loop\<close>

text \<open>
  The file-level variables of main.c that crop selection and detection read and write,
  and the crop fields of \<open>config\<close> (\<open>config_crop_x\<close> is \<open>config.crop_x\<close>).
\<close>

record main_state =
  crop_x :: int
  crop_y :: int
  crop_w :: int
  crop_h :: int
  auto_detect :: bool
  last_detected :: detected_preset_t
  detect_cooldown :: int
  last_border_luma :: luma4
  pending_border_scan :: bool
  buffer_count :: int
  pending_buffer_change :: bool
  config_crop_x :: int
  config_crop_y :: int
  config_crop_w :: int
  config_crop_h :: int

text \<open>The initial values of the variables (\<open>config\<close> as \<open>cfg\<close> leaves it).\<close>

definition initial_state :: "int \<times> int \<times> int \<times> int \<Rightarrow> main_state" where
  "initial_state cfg =
     \<lparr>crop_x = 448, crop_y = 83, crop_w = 1024, crop_h = 912,
      auto_detect = False, last_detected = PRESET_NONE, detect_cooldown = 0,
      last_border_luma = (0, 0, 0, 0), pending_border_scan = False,
      buffer_count = 2, pending_buffer_change = False,
      config_crop_x = fst cfg, config_crop_y = fst (snd cfg),
      config_crop_w = fst (snd (snd cfg)), config_crop_h = snd (snd (snd cfg))\<rparr>"

text \<open>The key handlers \<open>SDLK_a\<close>, \<open>SDLK_d\<close> and \<open>SDLK_b\<close> of the normal mode.\<close>

definition key_a :: "main_state \<Rightarrow> main_state" where
  "key_a st = st\<lparr>auto_detect := \<not> auto_detect st\<rparr>"

definition key_d :: "main_state \<Rightarrow> main_state" where
  "key_d st = st\<lparr>pending_border_scan := True\<rparr>"

definition key_b :: "main_state \<Rightarrow> main_state" where
  "key_b st =
     (let n = buffer_count st + 1;
          n' = (if n > 4 then 1 else n)
      in st\<lparr>buffer_count := n', pending_buffer_change := True\<rparr>)"

text \<open>
  The reinitialisation at the top of the loop body: \<open>capture_close\<close>, then
  \<open>capture_open_buffers(device, 1920, 1080, buffer_count)\<close>.
\<close>

definition reinit_capture ::
  "v4l2_device \<Rightarrow> mem \<Rightarrow> main_state \<Rightarrow> main_state \<times> (open_error + capture_ctx_t) option" where
  "reinit_capture dev rgb0 st =
     (if pending_buffer_change st
      then (st\<lparr>pending_buffer_change := False\<rparr>,
            Some (capture_open_buffers dev rgb0 1920 1080 (buffer_count st)))
      else (st, None))"

text \<open>
  The manual border scan of the loop body (\<open>if (pending_border_scan) { ... }\<close>), on the
  raw frame just acquired. Recreating the texture and the crop buffer follows the new
  crop size and is not part of this state.
\<close>

definition manual_scan_step :: "main_state \<Rightarrow> mem \<Rightarrow> int \<Rightarrow> int \<Rightarrow> main_state" where
  "manual_scan_step st raw width height =
     (if pending_border_scan st
      then (let st1 = st\<lparr>pending_border_scan := False\<rparr> in
            case scan_for_game_area raw width height of
              Some (new_cx, new_cy, new_cw, new_ch) \<Rightarrow>
                let st2 = (if new_cw \<noteq> crop_w st1 \<or> new_ch \<noteq> crop_h st1
                           then st1\<lparr>crop_x := new_cx, crop_y := new_cy,
                                    crop_w := new_cw, crop_h := new_ch\<rparr>
                           else st1\<lparr>crop_x := new_cx, crop_y := new_cy\<rparr>)
                in st2\<lparr>config_crop_x := crop_x st2, config_crop_y := crop_y st2,
                       config_crop_w := crop_w st2, config_crop_h := crop_h st2,
                       auto_detect := False, last_detected := PRESET_NONE\<rparr>
            | None \<Rightarrow> st1)
      else st)"

text \<open>
  The continuous detection of the loop body:
  \<open>if (auto_detect && detect_cooldown <= 0) { ...; detect_cooldown = 30; }\<close> followed by
  \<open>if (detect_cooldown > 0) detect_cooldown--;\<close>.
\<close>

definition auto_detect_step :: "main_state \<Rightarrow> mem \<Rightarrow> int \<Rightarrow> int \<Rightarrow> main_state" where
  "auto_detect_step st raw width height =
     (let st1 =
        (if auto_detect st \<and> detect_cooldown st \<le> 0
         then (case border_changed raw width (last_detected st) (last_border_luma st) of
                 (changed, samples) \<Rightarrow>
                   let sa = st\<lparr>last_border_luma := samples\<rparr>;
                       sb = (if changed
                             then (let detected = detect_preset raw width height in
                                   if detected \<noteq> last_detected sa
                                   then (case apply_detected_preset detected of
                                           (new_cx, new_cy, new_cw, new_ch) \<Rightarrow>
                                             let sc = (if new_cw \<noteq> crop_w sa \<or> new_ch \<noteq> crop_h sa
                                                       then sa\<lparr>crop_x := new_cx, crop_y := new_cy,
                                                               crop_w := new_cw, crop_h := new_ch\<rparr>
                                                       else sa\<lparr>crop_x := new_cx, crop_y := new_cy\<rparr>)
                                             in sc\<lparr>last_detected := detected\<rparr>)
                                   else sa)
                             else sa)
                   in sb\<lparr>detect_cooldown := 30\<rparr>)
         else st)
      in if detect_cooldown st1 > 0 then st1\<lparr>detect_cooldown := detect_cooldown st1 - 1\<rparr>
         else st1)"

text \<open>
  One acquired frame through both detectors, in the order of the loop body, and a
  sequence of acquired frames.
\<close>

definition detect_frame :: "int \<Rightarrow> int \<Rightarrow> main_state \<Rightarrow> mem \<Rightarrow> main_state" where
  "detect_frame width height st raw =
     auto_detect_step (manual_scan_step st raw width height) raw width height"

definition detect_frames :: "int \<Rightarrow> int \<Rightarrow> main_state \<Rightarrow> mem list \<Rightarrow> main_state" where
  "detect_frames width height st raws = foldl (detect_frame width height) st raws"

text \<open>
  A state in which the continuous detector is enabled and has classified
  \<open>PRESET_NES_SWITCH\<close>, the crop being that preset's.
\<close>

definition nes_auto_state :: main_state where
  "nes_auto_state =
     (initial_state (0, 0, 1920, 1080))\<lparr>auto_detect := True, last_detected := PRESET_NES_SWITCH\<rparr>"

text \<open>
  The condition under which a frame with the probe samples \<open>s\<close> cannot start a
  classification that changes the label: no manual scan is pending, and the stored
  samples are within the debounce threshold of \<open>s\<close> unless the label is \<open>PRESET_NONE\<close>.
\<close>

definition quiet :: "main_state \<Rightarrow> luma4 \<Rightarrow> bool" where
  "quiet st s = (\<not> pending_border_scan st \<and>
                 (last_detected st = PRESET_NONE \<or> probe_diff s (last_border_luma st) \<le> 60))"

section \<open>Properties of the packed-YUV conversion\<close>

lemma macropixel_outside:
  "a < d \<or> d + 8 \<le> a \<Longrightarrow> macropixel src s dst d a = dst a"
  by (auto simp: macropixel_def Let_def)

lemma macropixel_at:
  "macropixel src s dst d (d + 0) = mp_byte src s 0"
  "macropixel src s dst d (d + 1) = mp_byte src s 1"
  "macropixel src s dst d (d + 2) = mp_byte src s 2"
  "macropixel src s dst d (d + 3) = mp_byte src s 3"
  "macropixel src s dst d (d + 4) = mp_byte src s 4"
  "macropixel src s dst d (d + 5) = mp_byte src s 5"
  "macropixel src s dst d (d + 6) = mp_byte src s 6"
  "macropixel src s dst d (d + 7) = mp_byte src s 7"
  by (simp_all add: macropixel_def mp_byte_def Let_def)

lemma macropixel_inside:
  assumes "d \<le> a" "a < d + 8"
  shows "macropixel src s dst d a = mp_byte src s (a - d)"
proof -
  from assms consider "a = d + 0" | "a = d + 1" | "a = d + 2" | "a = d + 3"
    | "a = d + 4" | "a = d + 5" | "a = d + 6" | "a = d + 7" by fastforce
  then show ?thesis
    by cases (simp_all only: macropixel_at add_diff_cancel_left')
qed

lemma div8_shift: "(a - d) div 8 = (a - (d + 8)) div 8 + (1::int)"
proof -
  have "a - d = (a - (d + 8)) + 8" by simp
  then have "(a - d) div 8 = ((a - (d + 8)) + 8) div 8" by simp
  also have "\<dots> = (a - (d + 8)) div 8 + 1" by (rule div_add_self2) simp
  finally show ?thesis .
qed

lemma mod8_shift: "(a - (d + 8)) mod 8 = (a - d) mod (8::int)"
proof -
  have "a - d = (a - (d + 8)) + 8" by simp
  then show ?thesis by (metis mod_add_self2)
qed

lemma yuyv_loop_byte:
  "yuyv_loop src dst s d i n a =
     (if d \<le> a \<and> a < d + 8 * (n - i)
      then mp_byte src (s + 4 * ((a - d) div 8)) ((a - d) mod 8)
      else dst a)"
proof (induction src dst s d i n rule: yuyv_loop.induct)
  case (1 src dst s d i n)
  show ?case
  proof (cases "i < n")
    case False
    then have "yuyv_loop src dst s d i n = dst"
      by (subst yuyv_loop.simps) simp
    moreover from False have "\<not> (d \<le> a \<and> a < d + 8 * (n - i))"
      by auto
    ultimately show ?thesis by (simp only: if_False)
  next
    case True
    have step: "yuyv_loop src dst s d i n a =
                yuyv_loop src (macropixel src s dst d) (s + 4) (d + 8) (i + 1) n a"
      using True by (subst yuyv_loop.simps) simp
    note ih = "1.IH" [OF True]
    show ?thesis
    proof (cases "d + 8 \<le> a")
      case hi: True
      have dv: "s + 4 + 4 * ((a - (d + 8)) div 8) = s + 4 * ((a - d) div 8)"
        by (simp only: div8_shift [of a d]) simp
      have cond: "(d + 8 \<le> a \<and> a < d + 8 + 8 * (n - (i + 1))) = (d \<le> a \<and> a < d + 8 * (n - i))"
        using hi by auto
      have out: "macropixel src s dst d a = dst a"
        using hi by (simp add: macropixel_outside)
      show ?thesis
        unfolding step ih cond dv mod8_shift out ..
    next
      case lo: False
      have nc: "\<not> (d + 8 \<le> a \<and> a < d + 8 + 8 * (n - (i + 1)))"
        using lo by simp
      have st: "yuyv_loop src dst s d i n a = macropixel src s dst d a"
        unfolding step ih using nc by (simp only: if_False)
      show ?thesis
      proof (cases "d \<le> a")
        case True
        with lo have k: "(a - d) div 8 = 0" "(a - d) mod 8 = a - d" by auto
        from \<open>i < n\<close> True lo have c: "d \<le> a \<and> a < d + 8 * (n - i)" by auto
        from True lo have m: "macropixel src s dst d a = mp_byte src s (a - d)"
          by (simp add: macropixel_inside)
        show ?thesis
          unfolding st m using c by (simp only: k if_True) simp
      next
        case False
        then have m: "macropixel src s dst d a = dst a"
          by (simp add: macropixel_outside)
        from False have c: "\<not> (d \<le> a \<and> a < d + 8 * (n - i))" by simp
        show ?thesis
          unfolding st m using c by (simp only: if_False)
      qed
    qed
  qed
qed


lemma mp_byte_gray:
  assumes "src s = 128" "src (s + 1) = 128" "src (s + 2) = 128" "src (s + 3) = 128"
  shows "mp_byte src s 0 = 128" "mp_byte src s 1 = 128" "mp_byte src s 2 = 128" "mp_byte src s 3 = 255"
        "mp_byte src s 4 = 128" "mp_byte src s 5 = 128" "mp_byte src s 6 = 128" "mp_byte src s 7 = 255"
  using assms unfolding mp_byte_def macropixel_def Let_def clamp255_def
  by simp_all

lemma c_div_nonneg: "0 \<le> a \<Longrightarrow> 0 < b \<Longrightarrow> c_div a b = a div b"
  by (cases "a = 0") (simp_all add: c_div_def)

lemma divmod8: "0 \<le> m \<Longrightarrow> m < 8 \<Longrightarrow> (8 * k + m) div 8 = (k::int) \<and> (8 * k + m) mod 8 = m"
  by simp

text \<open>
  C8. A packed frame is a sequence of whole macropixels, so \<open>width * height\<close> is even.
  When every byte of the frame (luma and chroma) is 128, every pixel \<open>p\<close> of the output of
  \<open>yuyv_to_rgba_fast\<close> is R = 128, G = 128, B = 128, A = 255.
\<close>

theorem yuyv_uniform_gray:
  assumes dims: "0 \<le> width" "0 \<le> height" "even (width * height)"
    and gray: "\<forall>a. 0 \<le> a \<and> a < width * height * 2 \<longrightarrow> src a = 128"
    and px: "0 \<le> p" "p < width * height"
  shows "yuyv_to_rgba_fast src dst width height (4 * p) = 128 \<and>
         yuyv_to_rgba_fast src dst width height (4 * p + 1) = 128 \<and>
         yuyv_to_rgba_fast src dst width height (4 * p + 2) = 128 \<and>
         yuyv_to_rgba_fast src dst width height (4 * p + 3) = 255"
proof -
  from dims(3) obtain n where wh: "width * height = 2 * n" by (elim evenE)
  from dims wh have n0: "0 \<le> n" by (metis mult_nonneg_nonneg zero_le_mult_iff not_numeral_le_zero)
  have cd: "c_div (width * height) 2 = n"
    using n0 by (simp add: wh c_div_nonneg)
  define k where "k = p div 2"
  define r where "r = p mod 2"
  have p: "p = 2 * k + r" by (simp add: k_def r_def)
  have r: "r = 0 \<or> r = 1" unfolding r_def by auto
  have k0: "0 \<le> k" using px(1) by (simp add: k_def)
  have kn: "k < n" using px(2) wh by (simp add: k_def)
  let ?s = "4 * k"
  have gr: "src a = 128" if "0 \<le> a" "a < 4 * n" for a
  proof -
    have "width * height * 2 = 4 * n" by (simp add: wh)
    with gray that show ?thesis by simp
  qed
  have g: "src ?s = 128" "src (?s + 1) = 128" "src (?s + 2) = 128" "src (?s + 3) = 128"
    using k0 kn by (auto intro: gr)
  note mg = mp_byte_gray [OF g]
  have out: "yuyv_to_rgba_fast src dst width height (8 * k + m) = mp_byte src (4 * k) m"
    if "0 \<le> m" "m < 8" for m
  proof -
    have "0 \<le> 8 * k + m \<and> 8 * k + m < 0 + 8 * (n - 0)" using that k0 kn by auto
    then show ?thesis
      unfolding yuyv_to_rgba_fast_def Let_def cd yuyv_loop_byte
      using divmod8 [OF that, of k] by simp
  qed
  have res: "yuyv_to_rgba_fast src dst width height a = mp_byte src (4 * k) m"
    if "a = 8 * k + m" "0 \<le> m" "m < 8" for a m
    using out [OF that(2,3)] that(1) by simp
  from r show ?thesis
  proof
    assume r0: "r = 0"
    have "yuyv_to_rgba_fast src dst width height (4 * p) = mp_byte src (4 * k) 0"
      by (rule res) (simp_all add: p r0)
    moreover have "yuyv_to_rgba_fast src dst width height (4 * p + 1) = mp_byte src (4 * k) 1"
      by (rule res) (simp_all add: p r0)
    moreover have "yuyv_to_rgba_fast src dst width height (4 * p + 2) = mp_byte src (4 * k) 2"
      by (rule res) (simp_all add: p r0)
    moreover have "yuyv_to_rgba_fast src dst width height (4 * p + 3) = mp_byte src (4 * k) 3"
      by (rule res) (simp_all add: p r0)
    ultimately show ?thesis by (simp only: mg)
  next
    assume r1: "r = 1"
    have "yuyv_to_rgba_fast src dst width height (4 * p) = mp_byte src (4 * k) 4"
      by (rule res) (simp_all add: p r1)
    moreover have "yuyv_to_rgba_fast src dst width height (4 * p + 1) = mp_byte src (4 * k) 5"
      by (rule res) (simp_all add: p r1)
    moreover have "yuyv_to_rgba_fast src dst width height (4 * p + 2) = mp_byte src (4 * k) 6"
      by (rule res) (simp_all add: p r1)
    moreover have "yuyv_to_rgba_fast src dst width height (4 * p + 3) = mp_byte src (4 * k) 7"
      by (rule res) (simp_all add: p r1)
    ultimately show ?thesis by (simp only: mg)
  qed
qed


theorem yuyv_uniform_gray_witness:
  "yuyv_to_rgba_fast (\<lambda>_. 128) (\<lambda>_. 0) 2 1 4 = 128 \<and>
   yuyv_to_rgba_fast (\<lambda>_. 128) (\<lambda>_. 0) 2 1 5 = 128 \<and>
   yuyv_to_rgba_fast (\<lambda>_. 128) (\<lambda>_. 0) 2 1 6 = 128 \<and>
   yuyv_to_rgba_fast (\<lambda>_. 128) (\<lambda>_. 0) 2 1 7 = 255"
  using yuyv_uniform_gray [of 2 1 "\<lambda>_. 128" 1 "\<lambda>_. 0"] by simp

section \<open>Properties of the cropped conversion\<close>

lemma yuyv_loop_shift:
  "yuyv_loop src dst s d (i + c) (n + c) = yuyv_loop src dst s d i n"
  by (rule ext) (simp add: yuyv_loop_byte)

lemma div2_shift: "(a - (2::int)) div 2 = a div 2 - 1"
proof -
  have "a div 2 = ((a - 2) + 2) div 2" by simp
  also have "\<dots> = (a - 2) div 2 + 1" by (rule div_add_self2) simp
  finally show ?thesis by simp
qed

lemma crop_row_eq:
  "crop_row src dst row out x cw = yuyv_loop src dst row out 0 ((cw - x + 1) div 2)"
proof (induction src dst row out x cw rule: crop_row.induct)
  case (1 src dst row out x cw)
  show ?case
  proof (cases "x < cw")
    case False
    then have "cw - x + 1 \<le> 1" by simp
    then have "(cw - x + 1) div 2 \<le> 1 div 2" by (rule zdiv_mono1) simp
    then have "\<not> 0 < (cw - x + 1) div 2" by simp
    then have "yuyv_loop src dst row out 0 ((cw - x + 1) div 2) = dst"
      by (subst yuyv_loop.simps) simp
    moreover from False have "crop_row src dst row out x cw = dst"
      by (subst crop_row.simps) simp
    ultimately show ?thesis by simp
  next
    case True
    then have "2 \<le> cw - x + 1" by simp
    then have "2 div 2 \<le> (cw - x + 1) div 2" by (rule zdiv_mono1) simp
    then have pos: "0 < (cw - x + 1) div 2" by simp
    have m: "(cw - (x + 2) + 1) div 2 = (cw - x + 1) div 2 - 1"
      using div2_shift [of "cw - x + 1"] by (simp add: algebra_simps)
    have "crop_row src dst row out x cw =
          crop_row src (macropixel src row dst out) (row + 4) (out + 8) (x + 2) cw"
      using True by (subst crop_row.simps) simp
    also have "\<dots> = yuyv_loop src (macropixel src row dst out) (row + 4) (out + 8) 0
                        ((cw - x + 1) div 2 - 1)"
      unfolding "1.IH" [OF True] m ..
    also have "\<dots> = yuyv_loop src (macropixel src row dst out) (row + 4) (out + 8) (0 + 1)
                        (((cw - x + 1) div 2 - 1) + 1)"
      by (simp only: yuyv_loop_shift)
    also have "\<dots> = yuyv_loop src dst row out 0 ((cw - x + 1) div 2)"
      using pos by (subst (2) yuyv_loop.simps) simp
    finally show ?thesis .
  qed
qed

lemma crop_row_byte:
  "crop_row src dst row out 0 cw a =
     (if out \<le> a \<and> a < out + 8 * ((cw + 1) div 2)
      then mp_byte src (row + 4 * ((a - out) div 8)) ((a - out) mod 8)
      else dst a)"
  by (simp add: crop_row_eq yuyv_loop_byte)

lemma row_span: "4 * cw \<le> 8 * ((cw + 1) div (2::int))"
proof (cases "even cw")
  case True
  then obtain m where "cw = 2 * m" by (elim evenE)
  then show ?thesis by simp
next
  case False
  then obtain m where "cw = 2 * m + 1" by (elim oddE)
  then show ?thesis by simp
qed


lemma crop_rows_below:
  "0 \<le> cw \<Longrightarrow> 0 \<le> y \<Longrightarrow> a < y * cw * 4 \<Longrightarrow> crop_rows src src_w dst cx cy cw ch y a = dst a"
proof (induction src src_w dst cx cy cw ch y rule: crop_rows.induct)
  case (1 src src_w dst cx cy cw ch y)
  show ?case
  proof (cases "y < ch")
    case False
    then show ?thesis by (subst crop_rows.simps) simp
  next
    case True
    have "y * cw * 4 \<le> (y + 1) * cw * 4" using "1.prems"(1) by (simp add: algebra_simps)
    with "1.prems" have lt: "a < (y + 1) * cw * 4" by simp
    have "crop_rows src src_w dst cx cy cw ch y a =
          crop_rows src src_w (crop_row src dst (((cy + y) * src_w + cx) * 2) (y * cw * 4) 0 cw)
            cx cy cw ch (y + 1) a"
      using True by (subst crop_rows.simps) simp
    also have "\<dots> = crop_row src dst (((cy + y) * src_w + cx) * 2) (y * cw * 4) 0 cw a"
      using "1.prems" lt by (intro "1.IH" [OF True]) simp_all
    also have "\<dots> = dst a"
      using "1.prems"(3) by (simp add: crop_row_byte)
    finally show ?thesis .
  qed
qed

lemma crop_rows_row:
  assumes "0 \<le> cw" "0 \<le> y" "y \<le> y0" "y0 < ch"
    and "y0 * cw * 4 \<le> a" "a < y0 * cw * 4 + 8 * ((cw + 1) div 2)"
    and "a < (y0 + 1) * cw * 4 \<or> y0 + 1 = ch"
  shows "crop_rows src src_w dst cx cy cw ch y a =
         mp_byte src (((cy + y0) * src_w + cx) * 2 + 4 * ((a - y0 * cw * 4) div 8))
           ((a - y0 * cw * 4) mod 8)"
  using assms
proof (induction src src_w dst cx cy cw ch y rule: crop_rows.induct)
  case (1 src src_w dst cx cy cw ch y)
  from "1.prems" have ych: "y < ch" by simp
  have step: "crop_rows src src_w dst cx cy cw ch y a =
          crop_rows src src_w (crop_row src dst (((cy + y) * src_w + cx) * 2) (y * cw * 4) 0 cw)
            cx cy cw ch (y + 1) a"
    using ych by (subst crop_rows.simps) simp
  show ?case
  proof (cases "y = y0")
    case False
    with "1.prems" have "y + 1 \<le> y0" "0 \<le> y + 1" by simp_all
    with "1.prems" show ?thesis
      unfolding step by (intro "1.IH" [OF ych]) simp_all
  next
    case True
    let ?d = "crop_row src dst (((cy + y) * src_w + cx) * 2) (y * cw * 4) 0 cw"
    have "crop_rows src src_w ?d cx cy cw ch (y + 1) a = ?d a"
    proof (cases "y0 + 1 = ch")
      case True
      with \<open>y = y0\<close> show ?thesis by (subst crop_rows.simps) simp
    next
      case False
      with "1.prems"(7) have "a < (y + 1) * cw * 4" using \<open>y = y0\<close> by simp
      with "1.prems" show ?thesis by (intro crop_rows_below) simp_all
    qed
    also have "?d a = mp_byte src (((cy + y0) * src_w + cx) * 2 + 4 * ((a - y0 * cw * 4) div 8))
           ((a - y0 * cw * 4) mod 8)"
      using "1.prems"(5,6) True by (simp add: crop_row_byte)
    finally show ?thesis unfolding step .
  qed
qed


lemma and_not_1: "(cx::int) AND NOT 1 = 2 * (cx div 2)"
proof (rule bit_eqI)
  fix n
  show "bit (cx AND NOT 1) n = bit (2 * (cx div 2)) n"
    unfolding bit_and_iff bit_not_iff bit_1_iff bit_double_iff
    by (cases n) (simp_all add: bit_Suc)
qed


lemma pixel_split:
  assumes "0 \<le> j" "j < 4"
  shows "(4 * x + j) div 8 = x div 2 \<and> (4 * x + j) mod 8 = 4 * (x mod 2) + (j::int)"
proof -
  define q where "q = x div 2"
  define r where "r = x mod 2"
  have x: "x = 2 * q + r" by (simp add: q_def r_def)
  have r: "0 \<le> r" "r < 2" by (simp_all add: r_def)
  have e: "4 * x + j = 8 * q + (4 * r + j)" by (simp add: x)
  have "0 \<le> 4 * r + j" "4 * r + j < 8" using r assms by simp_all
  from divmod8 [OF this, of q]
  have "(4 * x + j) div 8 = q \<and> (4 * x + j) mod 8 = 4 * r + j"
    unfolding e .
  then show ?thesis unfolding q_def r_def .
qed

lemma row_span_even: "even cw \<Longrightarrow> 8 * ((cw + 1) div (2::int)) = 4 * cw"
  by (elim evenE) simp

lemma crop_rows_above:
  "even cw \<Longrightarrow> 0 \<le> cw \<Longrightarrow> 0 \<le> y \<Longrightarrow> ch * cw * 4 \<le> a \<Longrightarrow>
   crop_rows src src_w dst cx cy cw ch y a = dst a"
proof (induction src src_w dst cx cy cw ch y rule: crop_rows.induct)
  case (1 src src_w dst cx cy cw ch y)
  show ?case
  proof (cases "y < ch")
    case False
    then show ?thesis by (subst crop_rows.simps) simp
  next
    case True
    then have "y + 1 \<le> ch" by simp
    then have "(y + 1) * cw \<le> ch * cw" using "1.prems"(2) by (rule mult_right_mono)
    with "1.prems"(4) have ge: "y * cw * 4 + 4 * cw \<le> a" by (simp add: algebra_simps)
    have "crop_rows src src_w dst cx cy cw ch y a =
          crop_rows src src_w (crop_row src dst (((cy + y) * src_w + cx) * 2) (y * cw * 4) 0 cw)
            cx cy cw ch (y + 1) a"
      using True by (subst crop_rows.simps) simp
    also have "\<dots> = crop_row src dst (((cy + y) * src_w + cx) * 2) (y * cw * 4) 0 cw a"
      using "1.prems" by (intro "1.IH" [OF True]) simp_all
    also have "\<dots> = dst a"
      using ge by (simp add: crop_row_byte row_span_even [OF "1.prems"(1)])
    finally show ?thesis .
  qed
qed

lemma crop_even_width_exact:
  assumes "even cw" "0 \<le> cw" "a < 0 \<or> cw * ch * 4 \<le> a"
  shows "yuyv_crop_to_rgba src src_w src_h dst cx cy cw ch a = dst a"
proof -
  from assms(3) show ?thesis
  proof
    assume "a < 0"
    then have "a < 0 * cw * 4" by simp
    from crop_rows_below [OF assms(2) _ this] show ?thesis
      by (simp add: yuyv_crop_to_rgba_def)
  next
    assume "cw * ch * 4 \<le> a"
    then have "ch * cw * 4 \<le> a" by (simp add: mult.commute)
    from crop_rows_above [OF assms(1,2) _ this] show ?thesis
      by (simp add: yuyv_crop_to_rgba_def)
  qed
qed

lemma even_col: "r = 0 \<or> r = 1 \<Longrightarrow> (2 * q + r) AND NOT 1 = 2 * (q::int)"
  unfolding and_not_1 by auto

lemma mp_byte_sample:
  assumes "r = 0 \<or> r = 1"
  shows "mp_byte src ((py * w + 2 * q) * 2) (4 * r) =
           word_of_int (fst (sample_yuyv_rgb src w (2 * q + r) py)) \<and>
         mp_byte src ((py * w + 2 * q) * 2) (4 * r + 1) =
           word_of_int (fst (snd (sample_yuyv_rgb src w (2 * q + r) py))) \<and>
         mp_byte src ((py * w + 2 * q) * 2) (4 * r + 2) =
           word_of_int (snd (snd (sample_yuyv_rgb src w (2 * q + r) py))) \<and>
         mp_byte src ((py * w + 2 * q) * 2) (4 * r + 3) = 255"
proof -
  have l: "(py * w + (2 * q + r)) * 2 = (py * w + 2 * q) * 2 + 2 * r" by (simp add: algebra_simps)
  from assms show ?thesis
  proof
    assume "r = 0"
    then show ?thesis
      unfolding sample_yuyv_rgb_def even_col [OF assms] l
      by (simp add: mp_byte_def macropixel_def clamp255_def Let_def)
  next
    assume "r = 1"
    then show ?thesis
      unfolding sample_yuyv_rgb_def even_col [OF assms] l
      by (simp add: mp_byte_def macropixel_def clamp255_def Let_def)
  qed
qed


text \<open>
  What the cropped conversion gets right, for every crop width: each pixel \<open>(x, y)\<close> of
  the \<open>cw \<times> ch\<close> output grid (row-major, \<open>cw * 4\<close> bytes per row) is the value that
  \<open>sample_yuyv_rgb\<close> computes for the source pixel in column \<open>2 * (cx div 2) + x\<close> and
  row \<open>cy + y\<close>, with alpha 255: the origin is \<open>cx\<close> rounded down to even, and \<open>cy\<close>. For
  an even width nothing outside the \<open>cw * ch * 4\<close> bytes is written
  (\<open>crop_even_width_exact\<close>).
\<close>

lemma crop_grid_pixel:
  assumes inside: "0 \<le> cx" "0 \<le> cy" "0 < cw" "0 < ch" "cx + cw \<le> src_w" "cy + ch \<le> src_h"
    and px: "0 \<le> x" "x < cw" "0 \<le> y" "y < ch"
  shows "yuyv_crop_to_rgba src src_w src_h dst cx cy cw ch ((y * cw + x) * 4) =
           word_of_int (fst (sample_yuyv_rgb src src_w (2 * (cx div 2) + x) (cy + y))) \<and>
         yuyv_crop_to_rgba src src_w src_h dst cx cy cw ch ((y * cw + x) * 4 + 1) =
           word_of_int (fst (snd (sample_yuyv_rgb src src_w (2 * (cx div 2) + x) (cy + y)))) \<and>
         yuyv_crop_to_rgba src src_w src_h dst cx cy cw ch ((y * cw + x) * 4 + 2) =
           word_of_int (snd (snd (sample_yuyv_rgb src src_w (2 * (cx div 2) + x) (cy + y)))) \<and>
         yuyv_crop_to_rgba src src_w src_h dst cx cy cw ch ((y * cw + x) * 4 + 3) = 255"
proof -
  define q where "q = cx div 2 + x div 2"
  define r where "r = x mod 2"
  have r: "r = 0 \<or> r = 1" unfolding r_def by auto
  have col: "2 * (cx div 2) + x = 2 * q + r" by (simp add: q_def r_def)
  let ?s = "((cy + y) * src_w + 2 * q) * 2"
  have byte: "yuyv_crop_to_rgba src src_w src_h dst cx cy cw ch ((y * cw + x) * 4 + j) =
              mp_byte src ?s (4 * r + j)" if j: "0 \<le> j" "j < 4" for j
  proof -
    let ?a = "(y * cw + x) * 4 + j"
    have off: "?a - y * cw * 4 = 4 * x + j" by (simp add: algebra_simps)
    have lo: "y * cw * 4 \<le> ?a" using px j by (simp add: algebra_simps)
    have lt: "4 * x + j < 4 * cw" using px j by simp
    then have hi: "?a < (y + 1) * cw * 4" by (simp add: algebra_simps)
    have hi': "?a < y * cw * 4 + 8 * ((cw + 1) div 2)"
      using lt row_span [of cw] by (simp add: algebra_simps)
    have "yuyv_crop_to_rgba src src_w src_h dst cx cy cw ch ?a =
          mp_byte src (((cy + y) * src_w + 2 * (cx div 2)) * 2 + 4 * ((?a - y * cw * 4) div 8))
            ((?a - y * cw * 4) mod 8)"
      unfolding yuyv_crop_to_rgba_def and_not_1
      using inside px lo hi hi' by (intro crop_rows_row) simp_all
    also have "\<dots> = mp_byte src (((cy + y) * src_w + 2 * (cx div 2)) * 2 + 4 * (x div 2))
            (4 * (x mod 2) + j)"
      unfolding off using pixel_split [OF j, of x] by simp
    also have "\<dots> = mp_byte src ?s (4 * r + j)"
      by (simp add: q_def r_def algebra_simps)
    finally show ?thesis .
  qed
  from byte [of 0] byte [of 1] byte [of 2] byte [of 3] mp_byte_sample [OF r, of src "cy + y" src_w q]
  show ?thesis unfolding col by simp
qed

text \<open>
  C9. The output is not exactly \<open>crop_w \<times> crop_h\<close> for every crop region: for an odd
  width the conversion writes one pixel more than the grid holds. With the crop
  \<open>x = 448, y = 83, w = 1023, h = 912\<close> of a \<open>1920 \<times> 1080\<close> frame, which lies inside the
  source, the output buffer that main.c allocates has \<open>1023 * 912 * 4 = 3731904\<close> bytes,
  and the four bytes at the offsets 3731904 to 3731907, zero before, hold a converted
  pixel afterwards.
\<close>

theorem odd_crop_writes_past_output:
  "read_bytes [3731904, 3731905, 3731906, 3731907] dark_frame = [0, 0, 0, 0] \<and>
   read_bytes [3731904, 3731905, 3731906, 3731907]
     (yuyv_crop_to_rgba gray_frame 1920 1080 dark_frame 448 83 1023 912) = [128, 128, 128, 255]"
proof -
  have g: "gray_frame s = 128" for s by (simp add: gray_frame_def)
  note mg = mp_byte_gray [OF g g g g]
  have b: "yuyv_crop_to_rgba gray_frame 1920 1080 dark_frame 448 83 1023 912 (3731904 + j) =
           mp_byte gray_frame 3819900 (4 + j)" if "0 \<le> j" "j < 4" for j
  proof -
    have dm: "(4092 + j) div 8 = 511 \<and> (4092 + j) mod 8 = 4 + j"
      using divmod8 [of "4 + j" 511] that by simp
    have "crop_rows gray_frame 1920 dark_frame (448 AND NOT 1) 83 1023 912 0 (3731904 + j) =
          mp_byte gray_frame (((83 + 911) * 1920 + (448 AND NOT 1)) * 2
              + 4 * ((3731904 + j - 911 * 1023 * 4) div 8))
            ((3731904 + j - 911 * 1023 * 4) mod 8)"
      using that by (intro crop_rows_row) simp_all
    then show ?thesis using dm by (simp add: yuyv_crop_to_rgba_def)
  qed
  from b [of 0] b [of 1] b [of 2] b [of 3] mg show ?thesis
    by (simp add: read_bytes_def dark_frame_def)
qed




section \<open>Properties of the compressed conversion\<close>




lemma fmt_distinct: "V4L2_PIX_FMT_MJPEG \<noteq> V4L2_PIX_FMT_YUYV"
  by (simp add: V4L2_PIX_FMT_MJPEG_def V4L2_PIX_FMT_YUYV_def)












text \<open>
  C5. The frame published after a failed decode has alpha 0 in every pixel: here the
  alpha bytes of the two pixels of a \<open>2 \<times> 1\<close> frame, in a scratch buffer that held 255
  before. The other paths store 255 into the alpha byte of each pixel they write
  (\<open>mp_byte_alpha\<close> for the packed path).
\<close>

theorem fallback_frame_alpha_zero:
  "map_option (\<lambda>frame. (frame 3, frame 7))
     (fst (capture_get_frame (Some mjpeg_ctx) (Some \<lparr>index = 0, bytesused = 7\<rparr>) (\<lambda>_. 0)
        truncated_jpeg)) = Some (0, 0)"
  by (simp add: capture_get_frame_def capture_get_frame_raw_def capture_return_buffer_def
      Let_def fmt_distinct mjpeg_ctx_def truncated_jpeg_def mjpeg_to_rgba_def memset0_def)


section \<open>Properties of the manual border scan\<close>

lemma scan_up_Some: "scan_up test x limit = Some r \<Longrightarrow> x \<le> r \<and> r < limit \<and> test r"
proof (induction test x limit rule: scan_up.induct)
  case (1 test x limit)
  show ?case
  proof (cases "x < limit")
    case False
    with "1.prems" show ?thesis by (subst (asm) scan_up.simps) simp
  next
    case lt: True
    show ?thesis
    proof (cases "test x")
      case True
      with lt "1.prems" show ?thesis by (subst (asm) scan_up.simps) simp
    next
      case False
      with lt "1.prems" have "scan_up test (x + 2) limit = Some r"
        by (subst (asm) scan_up.simps) simp
      from "1.IH" [OF lt False this] show ?thesis by simp
    qed
  qed
qed

lemma left_scan_eq:
  "left_scan (scan_edges yuyv width height) =
     scan_up (\<lambda>x. is_content (sample_yuyv_luma yuyv width 200 (c_div height 2))
                     (sample_yuyv_luma yuyv width x (c_div height 2))) 150 (c_div width 2)"
  by (simp add: scan_edges_def Let_def)

lemma left_edge_found: "left_scan (scan_edges yuyv width height) = Some x \<Longrightarrow> 150 \<le> x"
  unfolding left_scan_eq by (drule scan_up_Some) simp

text \<open>
  C3, as the claim states it, fails: on \<open>left_only_frame\<close> the right, top and bottom
  scans all run to their ends without a transition, and the scan still returns a
  rectangle (the missing edges default to the frame's own: right 1920, top 0, bottom 1080).
\<close>

theorem scan_accepts_with_three_failed_edges:
  "right_scan (scan_edges left_only_frame 1920 1080) = None \<and>
   top_scan (scan_edges left_only_frame 1920 1080) = None \<and>
   bottom_scan (scan_edges left_only_frame 1920 1080) = None \<and>
   scan_for_game_area left_only_frame 1920 1080 = Some (148, 0, 1772, 1080)"
  by code_simp

text \<open>
  C3, amended. \<open>scan_for_game_area\<close> returns \<open>NotFound\<close> exactly when the left-edge scan
  finds no transition, or the rectangle between the edges (found or defaulted) is less
  than 200 wide or less than 200 high.
\<close>

theorem scan_rejects_iff:
  "(scan_for_game_area yuyv width height = None) =
     (left_scan (scan_edges yuyv width height) = None \<or>
      right_edge_of (scan_edges yuyv width height) width
        - left_edge_of (scan_edges yuyv width height) < 200 \<or>
      bottom_edge_of (scan_edges yuyv width height) height
        - top_edge_of (scan_edges yuyv width height) < 200)"
proof (cases "left_scan (scan_edges yuyv width height)")
  case None
  then show ?thesis by (simp add: scan_for_game_area_def Let_def left_edge_of_def)
next
  case (Some x)
  from left_edge_found [OF Some] Some show ?thesis
    by (simp add: scan_for_game_area_def Let_def left_edge_of_def)
qed

theorem scan_rejects_iff_witness:
  "scan_for_game_area dark_frame 1920 1080 = None \<and>
   left_scan (scan_edges dark_frame 1920 1080) = None"
proof -
  have "left_scan (scan_edges dark_frame 1920 1080) = None" by code_simp
  with scan_rejects_iff [of dark_frame 1920 1080] show ?thesis by simp
qed

text \<open>
  C4, as the claim states it, fails: with the detector enabled and \<open>PRESET_NES_SWITCH\<close>
  stored, a manual scan of a dark frame returns \<open>NotFound\<close>, and after the frame the
  detector is still enabled and the label still \<open>PRESET_NES_SWITCH\<close>.
\<close>

theorem failed_scan_keeps_auto_detect:
  "scan_for_game_area dark_frame 1920 1080 = None \<and>
   pending_border_scan (key_d nes_auto_state) \<and>
   auto_detect (detect_frame 1920 1080 (key_d nes_auto_state) dark_frame) \<and>
   last_detected (detect_frame 1920 1080 (key_d nes_auto_state) dark_frame) = PRESET_NES_SWITCH"
  by code_simp

text \<open>
  C4, amended. When a manual scan is pending and finds a rectangle, the frame ends with
  the continuous detector disabled and the stored label \<open>PRESET_NONE\<close>; when it returns
  \<open>NotFound\<close>, the manual step only clears the pending request.
\<close>

theorem manual_scan_effect:
  assumes "pending_border_scan st"
  shows "(case scan_for_game_area raw width height of
            Some r \<Rightarrow>
              \<not> auto_detect (detect_frame width height st raw) \<and>
              last_detected (detect_frame width height st raw) = PRESET_NONE
          | None \<Rightarrow>
              manual_scan_step st raw width height = st\<lparr>pending_border_scan := False\<rparr>)"
proof (cases "scan_for_game_area raw width height")
  case None
  with assms show ?thesis by (simp add: manual_scan_step_def)
next
  case (Some r)
  obtain x y w h where r: "r = (x, y, w, h)" by (cases r) auto
  define st' where "st' = manual_scan_step st raw width height"
  have a: "\<not> auto_detect st'" and l: "last_detected st' = PRESET_NONE"
    using assms Some r by (simp_all add: st'_def manual_scan_step_def Let_def)
  have "\<not> auto_detect (auto_detect_step st' raw width height) \<and>
        last_detected (auto_detect_step st' raw width height) = PRESET_NONE"
    using a l by (simp add: auto_detect_step_def Let_def)
  with Some show ?thesis by (simp add: detect_frame_def st'_def)
qed

theorem manual_scan_effect_witness:
  "\<not> auto_detect (detect_frame 1920 1080 (key_d nes_auto_state) left_only_frame) \<and>
   last_detected (detect_frame 1920 1080 (key_d nes_auto_state) left_only_frame) = PRESET_NONE"
proof -
  have "scan_for_game_area left_only_frame 1920 1080 = Some (148, 0, 1772, 1080)"
    by code_simp
  moreover have "pending_border_scan (key_d nes_auto_state)"
    by (simp add: key_d_def)
  ultimately show ?thesis
    using manual_scan_effect [of "key_d nes_auto_state" left_only_frame 1920 1080] by simp
qed

section \<open>Properties of the continuous detector\<close>

lemma border_changed_eq:
  "border_changed yuyv width current l =
     (if current = PRESET_NONE then True else probe_diff (probe_samples yuyv width) l > 60,
      probe_samples yuyv width)"
  by (cases l) (simp add: border_changed_def probe_samples_def probe_diff_def Let_def)

lemma probe_diff_self: "probe_diff s s = 0"
  by (cases s) (simp add: probe_diff_def)

lemma detect_frame_quiet:
  assumes "quiet st s" "probe_samples raw width = s"
    and "last_detected st = PRESET_NONE \<longrightarrow> detect_preset raw width height = PRESET_NONE"
  shows "quiet (detect_frame width height st raw) s \<and>
         last_detected (detect_frame width height st raw) = last_detected st \<and>
         crop_x (detect_frame width height st raw) = crop_x st \<and>
         crop_y (detect_frame width height st raw) = crop_y st \<and>
         crop_w (detect_frame width height st raw) = crop_w st \<and>
         crop_h (detect_frame width height st raw) = crop_h st"
proof -
  from assms(1) have m: "manual_scan_step st raw width height = st"
    by (simp add: quiet_def manual_scan_step_def)
  show ?thesis
  proof (cases "auto_detect st \<and> detect_cooldown st \<le> 0")
    case False
    with assms(1) show ?thesis
      unfolding detect_frame_def m by (auto simp: auto_detect_step_def quiet_def Let_def)
  next
    case True
    show ?thesis
    proof (cases "last_detected st = PRESET_NONE")
      case none: True
      with assms True show ?thesis
        unfolding detect_frame_def m
        by (simp add: auto_detect_step_def quiet_def Let_def border_changed_eq)
    next
      case False
      with assms(1) have "\<not> probe_diff s (last_border_luma st) > 60" by (simp add: quiet_def)
      with assms True False show ?thesis
        unfolding detect_frame_def m
        by (simp add: auto_detect_step_def quiet_def Let_def border_changed_eq probe_diff_self)
    qed
  qed
qed

text \<open>
  C6, as the claim states it, fails for the starting label \<open>PRESET_NONE\<close>: from the
  initial state with the detector switched on, two identical frames whose probe samples
  equal the stored ones change the label to \<open>PRESET_SNES_SWITCH\<close> and the crop from
  \<open>y = 83, h = 912\<close> to \<open>y = 92, h = 896\<close>.
\<close>

theorem unframed_identical_frames_change_label:
  "probe_samples snes_frame 1920 = last_border_luma (key_a (initial_state (0, 0, 1920, 1080))) \<and>
   last_detected (key_a (initial_state (0, 0, 1920, 1080))) = PRESET_NONE \<and>
   crop_y (key_a (initial_state (0, 0, 1920, 1080))) = 83 \<and>
   crop_h (key_a (initial_state (0, 0, 1920, 1080))) = 912 \<and>
   last_detected (detect_frames 1920 1080 (key_a (initial_state (0, 0, 1920, 1080)))
     [snes_frame, snes_frame]) = PRESET_SNES_SWITCH \<and>
   crop_y (detect_frames 1920 1080 (key_a (initial_state (0, 0, 1920, 1080)))
     [snes_frame, snes_frame]) = 92 \<and>
   crop_h (detect_frames 1920 1080 (key_a (initial_state (0, 0, 1920, 1080)))
     [snes_frame, snes_frame]) = 896"
  by code_simp


text \<open>
  C6, amended. No manual scan pending, a sequence of frames that all have the probe
  samples \<open>s\<close> leaves the label and the crop unchanged when either the label is not
  \<open>PRESET_NONE\<close> and the stored samples are within the debounce threshold (60) of \<open>s\<close>,
  or the label is \<open>PRESET_NONE\<close> and \<open>detect_preset\<close> classifies every frame as
  \<open>PRESET_NONE\<close>.
\<close>

theorem identical_probes_keep_label:
  assumes "\<not> pending_border_scan st"
    and "\<forall>raw \<in> set raws. probe_samples raw width = s"
    and "(last_detected st \<noteq> PRESET_NONE \<and> probe_diff s (last_border_luma st) \<le> 60) \<or>
         (last_detected st = PRESET_NONE \<and>
          (\<forall>raw \<in> set raws. detect_preset raw width height = PRESET_NONE))"
  shows "last_detected (detect_frames width height st raws) = last_detected st \<and>
         crop_x (detect_frames width height st raws) = crop_x st \<and>
         crop_y (detect_frames width height st raws) = crop_y st \<and>
         crop_w (detect_frames width height st raws) = crop_w st \<and>
         crop_h (detect_frames width height st raws) = crop_h st"
proof -
  have q: "quiet st s" using assms(1,3) by (auto simp: quiet_def)
  have p: "last_detected st = PRESET_NONE \<longrightarrow>
           (\<forall>raw \<in> set raws. detect_preset raw width height = PRESET_NONE)"
    using assms(3) by auto
  from q assms(2) p show ?thesis
  proof (induction raws arbitrary: st)
    case Nil
    then show ?case by (simp add: detect_frames_def)
  next
    case (Cons raw raws)
    let ?st = "detect_frame width height st raw"
    from Cons.prems have
      step: "quiet ?st s \<and> last_detected ?st = last_detected st \<and>
             crop_x ?st = crop_x st \<and> crop_y ?st = crop_y st \<and>
             crop_w ?st = crop_w st \<and> crop_h ?st = crop_h st"
      by (intro detect_frame_quiet) simp_all
    with Cons.prems have
      "last_detected (detect_frames width height ?st raws) = last_detected ?st \<and>
       crop_x (detect_frames width height ?st raws) = crop_x ?st \<and>
       crop_y (detect_frames width height ?st raws) = crop_y ?st \<and>
       crop_w (detect_frames width height ?st raws) = crop_w ?st \<and>
       crop_h (detect_frames width height ?st raws) = crop_h ?st"
      by (intro Cons.IH) simp_all
    with step show ?case by (simp add: detect_frames_def)
  qed
qed

theorem identical_probes_keep_label_witness:
  "last_detected (detect_frames 1920 1080 nes_auto_state [dark_frame, dark_frame])
     = PRESET_NES_SWITCH \<and>
   crop_x (detect_frames 1920 1080 nes_auto_state [dark_frame, dark_frame]) = 448 \<and>
   crop_y (detect_frames 1920 1080 nes_auto_state [dark_frame, dark_frame]) = 83 \<and>
   crop_w (detect_frames 1920 1080 nes_auto_state [dark_frame, dark_frame]) = 1024 \<and>
   crop_h (detect_frames 1920 1080 nes_auto_state [dark_frame, dark_frame]) = 912"
proof -
  have "probe_diff (0, 0, 0, 0) (last_border_luma nes_auto_state) \<le> 60"
    by (simp add: nes_auto_state_def initial_state_def probe_diff_def)
  moreover have "\<forall>raw \<in> set [dark_frame, dark_frame]. probe_samples raw 1920 = (0, 0, 0, 0)"
    by (simp add: probe_samples_def dark_frame_def sample_yuyv_luma_def)
  moreover have "\<not> pending_border_scan nes_auto_state" "last_detected nes_auto_state \<noteq> PRESET_NONE"
    by (simp_all add: nes_auto_state_def initial_state_def)
  ultimately show ?thesis
    using identical_probes_keep_label [of nes_auto_state "[dark_frame, dark_frame]" 1920
        "(0, 0, 0, 0)" 1080]
    by (simp add: nes_auto_state_def initial_state_def)
qed


section \<open>Properties of the buffer manager\<close>

text \<open>
  C1, as the claim states it, fails: \<open>capture_get_frame_raw\<close> has no guard. With both
  slots of \<open>two_buffer_ctx\<close> queued, a first call gets buffer 0 and a second call,
  before any release, is neither rejected nor given the same frame: it gets buffer 1,
  which the driver still owned and may hand over.
  Two slots are then acquired, \<open>current_index\<close> names only the second, and
  \<open>capture_return_buffer\<close> gives back only that one.
\<close>

theorem second_acquire_loses_first_slot:
  "driver_may_hand_over two_buffer_ctx \<lparr>index = 0, bytesused = 4147200\<rparr> \<and>
   capture_get_frame_raw (Some two_buffer_ctx) (Some \<lparr>index = 0, bytesused = 4147200\<rparr>) =
     (Some (4096, 4147200),
      Some (two_buffer_ctx\<lparr>ctx_current_index := 0, slots := [Acquired, Queued]\<rparr>)) \<and>
   driver_may_hand_over (two_buffer_ctx\<lparr>ctx_current_index := 0, slots := [Acquired, Queued]\<rparr>)
     \<lparr>index = 1, bytesused = 4147200\<rparr> \<and>
   capture_get_frame_raw
     (Some (two_buffer_ctx\<lparr>ctx_current_index := 0, slots := [Acquired, Queued]\<rparr>))
     (Some \<lparr>index = 1, bytesused = 4147200\<rparr>) =
     (Some (4151296, 4147200),
      Some (two_buffer_ctx\<lparr>ctx_current_index := 1, slots := [Acquired, Acquired]\<rparr>)) \<and>
   acquired_count (two_buffer_ctx\<lparr>ctx_current_index := 1, slots := [Acquired, Acquired]\<rparr>) = 2 \<and>
   capture_return_buffer
     (Some (two_buffer_ctx\<lparr>ctx_current_index := 1, slots := [Acquired, Acquired]\<rparr>)) =
     Some (two_buffer_ctx\<lparr>ctx_current_index := 1, slots := [Acquired, Queued]\<rparr>)"
  by (simp add: capture_get_frame_raw_def capture_return_buffer_def two_buffer_ctx_def Let_def
      driver_may_hand_over_def acquired_count_def)

lemma filter_update_other:
  "i < length xs \<Longrightarrow> \<not> P (xs ! i) \<Longrightarrow> P x \<Longrightarrow>
   length (filter P (xs[i := x])) = Suc (length (filter P xs))"
proof (induction xs arbitrary: i)
  case Nil
  then show ?case by simp
next
  case (Cons a xs)
  then show ?case by (cases i) simp_all
qed

text \<open>
  C1, amended. From a context in which no slot is acquired, \<open>capture_get_frame_raw\<close>
  with a buffer the driver may hand over returns that buffer's mapping, leaves exactly
  one slot acquired and records it in \<open>current_index\<close>; \<open>capture_return_buffer\<close> then
  gives it back, so that no slot is acquired. At most one slot is acquired at a time
  when every acquisition is followed by a release.
\<close>

theorem acquire_release_alternation:
  assumes "acquired_count c = 0" and "driver_may_hand_over c buf"
  shows "\<exists>c1 c2. capture_get_frame_raw (Some c) (Some buf) =
                    (Some (start (ctx_buffers c ! index buf), bytesused buf), Some c1) \<and>
           acquired_count c1 = 1 \<and>
           ctx_current_index c1 = int (index buf) \<and>
           slots c1 ! index buf = Acquired \<and>
           capture_return_buffer (Some c1) = Some c2 \<and>
           acquired_count c2 = 0"
proof -
  let ?i = "index buf"
  from assms(2) have i: "?i < length (ctx_buffers c)" "?i < length (slots c)"
    and q: "slots c ! ?i = Queued" by (simp_all add: driver_may_hand_over_def)
  define c1 where "c1 = c\<lparr>ctx_current_index := int ?i, slots := (slots c)[?i := Acquired]\<rparr>"
  define c2 where "c2 = c1\<lparr>slots := (slots c1)[nat (ctx_current_index c1) := Queued]\<rparr>"
  have r: "capture_get_frame_raw (Some c) (Some buf) =
           (Some (start (ctx_buffers c ! ?i), bytesused buf), Some c1)"
    using i by (simp add: capture_get_frame_raw_def c1_def Let_def)
  have "length (filter (\<lambda>s. s = Acquired) ((slots c)[?i := Acquired])) =
        Suc (length (filter (\<lambda>s. s = Acquired) (slots c)))"
    using i(2) q by (intro filter_update_other) simp_all
  with assms(1) have one: "acquired_count c1 = 1"
    by (simp add: acquired_count_def c1_def)
  have restored: "slots c2 = slots c"
    using q by (simp add: c2_def c1_def list_update_same_conv [THEN iffD2] i(2))
  have ret: "capture_return_buffer (Some c1) = Some c2"
    by (simp add: capture_return_buffer_def c2_def c1_def)
  have zero: "acquired_count c2 = 0"
    using assms(1) restored by (simp add: acquired_count_def)
  have "ctx_current_index c1 = int ?i" "slots c1 ! ?i = Acquired"
    using i(2) by (simp_all add: c1_def)
  with r one ret zero show ?thesis by blast
qed

theorem acquire_release_alternation_witness:
  "capture_get_frame_raw (Some two_buffer_ctx) (Some \<lparr>index = 1, bytesused = 4147200\<rparr>) =
     (Some (4151296, 4147200),
      Some (two_buffer_ctx\<lparr>ctx_current_index := 1, slots := [Queued, Acquired]\<rparr>)) \<and>
   capture_return_buffer (Some (two_buffer_ctx\<lparr>ctx_current_index := 1, slots := [Queued, Acquired]\<rparr>))
     = Some (two_buffer_ctx\<lparr>ctx_current_index := 1, slots := [Queued, Queued]\<rparr>)"
  using acquire_release_alternation [of two_buffer_ctx "\<lparr>index = 1, bytesused = 4147200\<rparr>"]
  by (simp add: capture_get_frame_raw_def capture_return_buffer_def two_buffer_ctx_def Let_def
      acquired_count_def driver_may_hand_over_def)


lemma map_buffers_length:
  "map_buffers dev i n acc = Inr bufs \<Longrightarrow> i \<le> n \<Longrightarrow> length bufs = length acc + (n - i)"
proof (induction dev i n acc rule: map_buffers.induct)
  case (1 dev i n acc)
  show ?case
  proof (cases "i < n")
    case False
    with "1.prems" show ?thesis by (subst (asm) map_buffers.simps) simp
  next
    case True
    from "1.prems"(1) True obtain l off a where
      qb: "querybuf dev i = Some (l, off)" and mm: "mmap_at dev l off = Some a"
      and rec: "map_buffers dev (i + 1) n (acc @ [\<lparr>start = a, len = l\<rparr>]) = Inr bufs"
      by (subst (asm) map_buffers.simps) (auto split: option.splits)
    from True have "i + 1 \<le> n" by simp
    from "1.IH" [OF True qb refl mm rec this] True show ?thesis by simp
  qed
qed

lemma map_buffers_total:
  "(\<forall>k. \<exists>l off a. querybuf dev k = Some (l, off) \<and> mmap_at dev l off = Some a) \<Longrightarrow>
   \<exists>bufs. map_buffers dev i n acc = Inr bufs"
proof (induction dev i n acc rule: map_buffers.induct)
  case (1 dev i n acc)
  show ?case
  proof (cases "i < n")
    case False
    then show ?thesis by (subst map_buffers.simps) simp
  next
    case True
    from "1.prems" obtain l off a where
      qb: "querybuf dev i = Some (l, off)" and mm: "mmap_at dev l off = Some a" by blast
    from "1.IH" [OF True qb refl mm "1.prems"]
    obtain bufs where "map_buffers dev (i + 1) n (acc @ [\<lparr>start = a, len = l\<rparr>]) = Inr bufs"
      by blast
    with True qb mm have "map_buffers dev i n acc = Inr bufs"
      by (subst map_buffers.simps) simp
    then show ?thesis by blast
  qed
qed

lemma queue_buffers_all: "(\<forall>k. qbuf dev k) \<Longrightarrow> queue_buffers dev i n"
proof (induction dev i n rule: queue_buffers.induct)
  case (1 dev i n)
  show ?case
  proof (cases "i < n")
    case False
    then show ?thesis by (subst queue_buffers.simps) simp
  next
    case True
    from "1.prems" have q: "qbuf dev i" by simp
    from "1.IH" [OF True q "1.prems"] True q show ?thesis
      by (subst queue_buffers.simps) simp
  qed
qed

text \<open>
  C2, as the claim states it, fails: \<open>capture_open_buffers\<close> does not clamp. Asked for
  8 buffers on a device that grants them, it returns a context with 8 buffer slots.
\<close>

theorem open_with_eight_buffers:
  "map_sum id ctx_buffer_count (capture_open_buffers plain_device dark_frame 1920 1080 8) = Inr 8 \<and>
   map_sum id slots (capture_open_buffers plain_device dark_frame 1920 1080 8) =
     Inr (replicate 8 Queued)"
proof -
  have "\<forall>k. \<exists>l off a. querybuf plain_device k = Some (l, off) \<and>
          mmap_at plain_device l off = Some a"
    by (simp add: plain_device_def)
  from map_buffers_total [OF this, of 0 8 "[]"]
  obtain bufs where b: "map_buffers plain_device 0 8 [] = Inr bufs" by blast
  from map_buffers_length [OF b] have l: "length bufs = 8" by simp
  have q: "queue_buffers plain_device 0 8"
    by (rule queue_buffers_all) (simp add: plain_device_def)
  have f: "negotiate_format plain_device 1920 1080 = Some (V4L2_PIX_FMT_MJPEG, 1920, 1080)"
    by (simp add: negotiate_format_def plain_device_def Let_def)
  have d: "open_fd plain_device = Some 3" "querycap plain_device = Some 1"
    "reqbufs plain_device 8 = Some 8" "streamon plain_device"
    by (simp_all add: plain_device_def)
  show ?thesis
    by (simp add: capture_open_buffers_def d f b q l V4L2_CAP_VIDEO_CAPTURE_def)
qed

text \<open>
  C2, amended. A context that \<open>capture_open_buffers\<close> returns has as many buffer slots
  as the driver granted for the unchanged requested count. The range 1 to 4 is kept by
  the caller: from a count in that range the key handler yields a count in that range,
  and the reinitialisation passes it on as it is.
\<close>

theorem open_passes_count_through:
  "(capture_open_buffers dev rgb0 width height num_buffers = Inr c \<longrightarrow>
      (\<exists>granted. reqbufs dev (word_of_int num_buffers) = Some granted \<and>
         ctx_buffer_count c = sint granted \<and>
         length (ctx_buffers c) = unat granted \<and>
         slots c = replicate (unat granted) Queued)) \<and>
   (1 \<le> buffer_count st \<and> buffer_count st \<le> 4 \<longrightarrow>
      1 \<le> buffer_count (key_b st) \<and> buffer_count (key_b st) \<le> 4 \<and>
      snd (reinit_capture dev rgb0 (key_b st)) =
        Some (capture_open_buffers dev rgb0 1920 1080 (buffer_count (key_b st))))"
proof (intro conjI impI)
  assume ok: "capture_open_buffers dev rgb0 width height num_buffers = Inr c"
  then obtain granted bufs where
    g: "reqbufs dev (word_of_int num_buffers) = Some granted"
    and b: "map_buffers dev 0 (unat granted) [] = Inr bufs"
    and c: "ctx_buffer_count c = sint granted" "ctx_buffers c = bufs"
      "slots c = replicate (unat granted) Queued"
    by (auto simp: capture_open_buffers_def split: option.splits if_splits sum.splits prod.splits)
  from map_buffers_length [OF b] have "length bufs = unat granted" by simp
  with g c show "\<exists>granted. reqbufs dev (word_of_int num_buffers) = Some granted \<and>
         ctx_buffer_count c = sint granted \<and>
         length (ctx_buffers c) = unat granted \<and>
         slots c = replicate (unat granted) Queued" by simp
next
  assume r: "1 \<le> buffer_count st \<and> buffer_count st \<le> 4"
  then show "1 \<le> buffer_count (key_b st)" by (simp add: key_b_def Let_def)
  from r show "buffer_count (key_b st) \<le> 4" by (simp add: key_b_def Let_def)
  show "snd (reinit_capture dev rgb0 (key_b st)) =
        Some (capture_open_buffers dev rgb0 1920 1080 (buffer_count (key_b st)))"
    by (simp add: reinit_capture_def key_b_def Let_def)
qed

theorem open_passes_count_through_witness:
  "map_sum id ctx_buffer_count (capture_open_buffers plain_device (\<lambda>_. 0) 1920 1080 3) = Inr 3 \<and>
   buffer_count (key_b (initial_state (0, 0, 1920, 1080))) = 3"
proof -
  have "\<forall>k. \<exists>l off a. querybuf plain_device k = Some (l, off) \<and>
          mmap_at plain_device l off = Some a"
    by (simp add: plain_device_def)
  from map_buffers_total [OF this, of 0 3 "[]"]
  obtain bufs where b: "map_buffers plain_device 0 3 [] = Inr bufs" by blast
  have q: "queue_buffers plain_device 0 3"
    by (rule queue_buffers_all) (simp add: plain_device_def)
  have f: "negotiate_format plain_device 1920 1080 = Some (V4L2_PIX_FMT_MJPEG, 1920, 1080)"
    by (simp add: negotiate_format_def plain_device_def Let_def)
  have d: "open_fd plain_device = Some 3" "querycap plain_device = Some 1"
    "reqbufs plain_device 3 = Some 3" "streamon plain_device"
    by (simp_all add: plain_device_def)
  obtain c where c: "capture_open_buffers plain_device (\<lambda>_. 0) 1920 1080 3 = Inr c"
    by (simp add: capture_open_buffers_def d f b q V4L2_CAP_VIDEO_CAPTURE_def)
  from open_passes_count_through [of plain_device "\<lambda>_. 0" 1920 1080 3 c
      "initial_state (0, 0, 1920, 1080)"] c d
  show ?thesis by (simp add: initial_state_def key_b_def Let_def)
qed


end
